theory Spec2Isabelle
  imports Main "HOL-Library.AList"
begin

section \<open>The checkpointed work-partitioning engine of \<open>wkr_manager.py\<close>\<close>

text \<open>
  The development embeds \<open>PipelineWorker.raw_or_fil\<close> and \<open>PipelineWorker.__call__\<close>
  of \<open>src/src_scripts/wkr_manager.py\<close>. One call of the worker handles one date (a
  WorkUnit) for one MPI rank (a peer). The file system is explicit state: the pickled
  history logs are lists of unpickled objects keyed by their path, the human readable
  \<open>filelist\<close> is a list of lines, and every observable action is recorded in a trace.
\<close>

subsection \<open>Data\<close>

text \<open>
  \<open>CfgManager\<close>: the fields that \<open>__call__\<close> reads. \<open>RANK\<close> and \<open>NRANKS\<close> come from
  \<open>COMM.Get_rank()\<close> and \<open>COMM.Get_size()\<close> in \<open>multi_config.py\<close>; MPI hands out
  non-negative values, so they are natural numbers here.
\<close>

record config =
  store_path :: string
  rfi_path :: string
  state_path :: string
  logs_path :: string
  RANK :: nat
  NRANKS :: nat

text \<open>An \<open>os.DirEntry\<close> as the worker uses it: \<open>FILE.name\<close> and \<open>FILE.path\<close>.\<close>

record entry =
  name :: string
  path :: string

text \<open>
  The object \<open>filterbank.metadata\<close>: the worker reads only \<open>meta["fname"]\<close>; whatever
  else the processing step stores is \<open>payload\<close>.
\<close>

record metadata =
  fname :: string
  payload :: string

text \<open>
  One pickled object of a history log: either the configuration dumped at line 193 or a
  metadata object dumped at line 246.
\<close>

datatype logrec = Cfg config | Meta metadata

datatype error =
    UnboundLocalError
  | ZeroDivisionError
  | TypeError
  | ProcessError string

text \<open>
  The observable actions of one call, in program order. \<open>Dump\<close> and \<open>List_Write\<close> are
  the calls \<open>pickle.dump(filterbank.metadata, _mem_)\<close> and \<open>_list_.write(...)\<close>, which
  fill the buffers of the two open files. \<open>Close_List\<close> and \<open>Close_Mem\<close> are the two files
  being closed at the end of the \<open>with\<close> block, each with what then reaches the file.
\<close>

datatype event =
    Log_Start string
  | Write_Header string
  | Process string
  | Dump string metadata
  | List_Write string
  | Close_List "string list"
  | Close_Mem string "logrec list"
  | Log_Count nat
  | Log_Done string
  | Log_Time int

record state =
  logs :: "(string \<times> logrec list) list"
  filelist :: "string list"
  trace :: "event list"

subsection \<open>Paths and directory listings\<close>

text \<open>\<open>os.path.join\<close> with two arguments (posixpath).\<close>

definition endswith :: "string \<Rightarrow> string \<Rightarrow> bool" where
  "endswith s ext \<longleftrightarrow> length ext \<le> length s \<and> drop (length s - length ext) s = ext"

definition join :: "string \<Rightarrow> string \<Rightarrow> string" where
  "join a b =
     (if take 1 b = ''/'' then b
      else if a = [] \<or> endswith a ''/'' then a @ b
      else a @ ''/'' @ b)"

text \<open>The decimal rendering of a rank inside an f-string.\<close>

definition digit_char :: "nat \<Rightarrow> char" where
  "digit_char d = ''0123456789'' ! d"

fun str_nat :: "nat \<Rightarrow> string" where
  "str_nat n = (if n < 10 then [digit_char n] else str_nat (n div 10) @ [digit_char (n mod 10)])"

declare str_nat.simps [simp del]

text \<open>\<open>f"{self.config.logs_path}/{self.date}.history_{rnk}.log"\<close> (lines 175 and 214).\<close>

definition history_prefix :: "config \<Rightarrow> string \<Rightarrow> string" where
  "history_prefix cfg date = logs_path cfg @ ''/'' @ date @ ''.history_''"

definition history_path :: "config \<Rightarrow> string \<Rightarrow> nat \<Rightarrow> string" where
  "history_path cfg date rnk = history_prefix cfg date @ str_nat rnk @ ''.log''"

text \<open>
  \<open>glob(f"{self.config.logs_path}/{self.date}.history_*.log")\<close> (line 173) over the
  stored logs: a path matches when it is the prefix, any run of characters without a
  directory separator, and \<open>.log\<close>. The logs directory and the date are taken to hold no
  glob metacharacter. \<open>glob\<close> returns the matches in the order of the directory, which
  is arbitrary; here the association list is the directory and its order is that order.
  What is proved below about the completed names is about their set, which does not
  depend on the order.
\<close>

definition glob_match :: "config \<Rightarrow> string \<Rightarrow> string \<Rightarrow> bool" where
  "glob_match cfg date p \<longleftrightarrow>
     (let pre = history_prefix cfg date in
      length pre + 4 \<le> length p \<and>
      take (length pre) p = pre \<and>
      drop (length p - 4) p = ''.log'' \<and>
      CHR ''/'' \<notin> set (drop (length pre) (take (length p - 4) p)))"

definition glob_history :: "config \<Rightarrow> string \<Rightarrow> (string \<times> logrec list) list \<Rightarrow> string list" where
  "glob_history cfg date fs = filter (glob_match cfg date) (map fst fs)"

text \<open>
  Modelled from the spec: \<open>filter_by_ext\<close> of \<open>utilities.py\<close> is not among the sources.
  The detection step tests "for the presence of files matching each expected pattern":
  it yields, in listing order, the entries of the directory whose name ends with the
  extension. The listing of a directory is the parameter \<open>scandir\<close>.
\<close>

definition filter_by_ext :: "(string \<Rightarrow> entry list) \<Rightarrow> string \<Rightarrow> string \<Rightarrow> entry list" where
  "filter_by_ext scandir p extension = filter (\<lambda>e. endswith (name e) extension) (scandir p)"

text \<open>
  Modelled from the spec: \<open>unpickler\<close> of \<open>utilities.py\<close> is not among the sources. It
  yields the objects pickled in a file one after the other; a file that does not exist
  or holds no record yields nothing ("if the hidden log doesn't exist, just return a
  list of all files", lines 180 to 182).
\<close>

definition unpickler :: "(string \<times> logrec list) list \<Rightarrow> string \<Rightarrow> logrec list" where
  "unpickler fs p = (case map_of fs p of None \<Rightarrow> [] | Some rs \<Rightarrow> rs)"

subsection \<open>Detection: \<open>raw_or_fil\<close> (lines 55 to 90)\<close>

text \<open>
  \<open>RAW_FILES.__next__()\<close> raises \<open>StopIteration\<close> exactly when no entry ends with
  \<open>.raw\<close>; only then are the \<open>.fil\<close> entries looked at.
\<close>

definition raw_or_fil :: "(string \<Rightarrow> entry list) \<Rightarrow> string \<Rightarrow> string option" where
  "raw_or_fil scandir p =
     (case filter_by_ext scandir p ''.raw'' of
        [] \<Rightarrow>
          (case filter_by_ext scandir p ''.fil'' of
             [] \<Rightarrow> None
           | _ # _ \<Rightarrow> Some ''.fil'')
      | _ # _ \<Rightarrow> Some ''.raw'')"

subsection \<open>Reconciliation (lines 173 to 197)\<close>

text \<open>
  Lines 188 and 189: \<open>for meta in _metalist_: _proc_files_.append(meta["fname"])\<close>.
  Subscripting a configuration object raises \<open>TypeError\<close>.
\<close>

fun restore :: "logrec list \<Rightarrow> error + string list" where
  "restore [] = Inr []"
| "restore (Meta m # rs) =
     (case restore rs of Inl e \<Rightarrow> Inl e | Inr ns \<Rightarrow> Inr (fname m # ns))"
| "restore (Cfg c # rs) = Inl TypeError"

text \<open>
  The loop of line 177 over \<open>metas_file_list\<close>. \<open>next(_metalist_)\<close> drops the first
  object of a log. A log without any object is opened with \<open>"wb+"\<close> and receives the
  pickled configuration (lines 191 to 194).
\<close>

fun reconcile_loop ::
  "config \<Rightarrow> string list \<Rightarrow> state \<Rightarrow> string list \<Rightarrow> error option \<times> state \<times> string list" where
  "reconcile_loop cfg [] s proc_files = (None, s, proc_files)"
| "reconcile_loop cfg (metas_file # rest) s proc_files =
     (case unpickler (logs s) metas_file of
        [] \<Rightarrow>
          reconcile_loop cfg rest
            (s\<lparr>logs := AList.update metas_file [Cfg cfg] (logs s),
               trace := trace s @ [Write_Header metas_file]\<rparr>)
            proc_files
      | first # metalist \<Rightarrow>
          (case restore metalist of
             Inl e \<Rightarrow> (Some e, s, proc_files)
           | Inr ns \<Rightarrow> reconcile_loop cfg rest s (proc_files @ ns)))"

text \<open>Lines 173 to 175: the logs found by the glob, or the expected names of this run.\<close>

definition metas_file_list :: "config \<Rightarrow> string \<Rightarrow> state \<Rightarrow> string list" where
  "metas_file_list cfg date s =
     (let found = glob_history cfg date (logs s) in
      if found = [] then map (history_path cfg date) [0 ..< NRANKS cfg] else found)"

definition reconcile :: "config \<Rightarrow> string \<Rightarrow> state \<Rightarrow> error option \<times> state \<times> string list" where
  "reconcile cfg date s = reconcile_loop cfg (metas_file_list cfg date s) s []"

text \<open>Line 197.\<close>

definition remaining :: "entry list \<Rightarrow> string list \<Rightarrow> entry list" where
  "remaining FILES proc_files = filter (\<lambda>FILE. name FILE \<notin> set proc_files) FILES"

subsection \<open>Partitioning (lines 199 to 212)\<close>

text \<open>
  \<open>len(FILES) / NRANKS\<close> is a float division; the quotient is rounded up when it has a
  fractional part. On lists that fit in memory the float is exact enough for the test
  \<open>% 1 != 0\<close> to be the test that the division leaves a remainder.
\<close>

definition n_files_per_rank :: "nat \<Rightarrow> nat \<Rightarrow> nat" where
  "n_files_per_rank len nranks =
     (if len mod nranks \<noteq> 0 then len div nranks + 1 else len div nranks)"

text \<open>Python's \<open>xs[a:b]\<close> and \<open>xs[a:]\<close> for non-negative bounds: out of range is clipped.\<close>

definition py_slice :: "'a list \<Rightarrow> nat \<Rightarrow> nat \<Rightarrow> 'a list" where
  "py_slice xs a b = take (b - a) (drop a xs)"

definition py_slice_from :: "'a list \<Rightarrow> nat \<Rightarrow> 'a list" where
  "py_slice_from xs a = drop a xs"

definition rank_slice :: "'a list \<Rightarrow> nat \<Rightarrow> nat \<Rightarrow> 'a list" where
  "rank_slice FILES rnk nranks =
     (let n = n_files_per_rank (length FILES) nranks in
      if rnk + 1 = nranks then py_slice_from FILES (rnk * n)
      else py_slice FILES (rnk * n) ((rnk + 1) * n))"

subsection \<open>The processing loop (lines 224 to 256)\<close>

text \<open>
  \<open>open(metas_file, "ab")\<close> creates the log when it does not exist and leaves an
  existing one as it is.
\<close>

definition open_append :: "string \<Rightarrow> (string \<times> logrec list) list \<Rightarrow> (string \<times> logrec list) list" where
  "open_append p fs = (case map_of fs p of None \<Rightarrow> AList.update p [] fs | Some rs \<Rightarrow> fs)"

text \<open>
  Lines 226 to 247, one pass through the \<open>with\<close> block. Both files are opened for
  appending before the external step runs. The external step \<open>Filterbank(...).process()\<close>
  is the parameter \<open>process\<close>: it either raises or leaves the metadata object.
  \<open>pickle.dump\<close> and \<open>_list_.write\<close> write into the buffers of the two file objects (the
  pickled metadata and the line are taken to fit into them), so nothing reaches the files
  before the block ends. There the context managers are left in reverse order: \<open>_list_\<close>
  is closed first and its buffer reaches the file list, then \<open>_mem_\<close> is closed and its
  buffer reaches the log. An exception of the external step is not caught: it leaves the
  block, which closes both files with empty buffers, and then the loop.
\<close>

definition emit :: "event list \<Rightarrow> state \<Rightarrow> state" where
  "emit evs s = s\<lparr>trace := trace s @ evs\<rparr>"

definition open_files :: "string \<Rightarrow> state \<Rightarrow> state" where
  "open_files metas_file s = s\<lparr>logs := open_append metas_file (logs s)\<rparr>"

definition close_list :: "string list \<Rightarrow> state \<Rightarrow> state" where
  "close_list list_buf s =
     emit [Close_List list_buf] (s\<lparr>filelist := filelist s @ list_buf\<rparr>)"

definition close_mem :: "string \<Rightarrow> logrec list \<Rightarrow> state \<Rightarrow> state" where
  "close_mem metas_file mem_buf s =
     emit [Close_Mem metas_file mem_buf]
       (s\<lparr>logs := AList.update metas_file (unpickler (logs s) metas_file @ mem_buf) (logs s)\<rparr>)"

text \<open>The block when the external step raises, and when it returns the metadata \<open>md\<close>.\<close>

definition block_raises :: "string \<Rightarrow> entry \<Rightarrow> state \<Rightarrow> state" where
  "block_raises metas_file FILE s =
     close_mem metas_file [] (close_list []
       (emit [Process (name FILE)] (open_files metas_file s)))"

definition block_returns :: "string \<Rightarrow> entry \<Rightarrow> metadata \<Rightarrow> state \<Rightarrow> state" where
  "block_returns metas_file FILE md s =
     close_mem metas_file [Meta md] (close_list [name FILE]
       (emit [Dump metas_file md, List_Write (name FILE)]
          (emit [Process (name FILE)] (open_files metas_file s))))"

text \<open>
  Lines 254 to 256: after the block the file list is read again and the number of its
  lines is logged.
\<close>

definition log_count :: "state \<Rightarrow> state" where
  "log_count s = emit [Log_Count (length (filelist s))] s"

text \<open>The loop of line 224.\<close>

fun process_loop ::
  "(entry \<Rightarrow> error + metadata) \<Rightarrow> string \<Rightarrow> entry list \<Rightarrow> state \<Rightarrow> error option \<times> state" where
  "process_loop process metas_file [] s = (None, s)"
| "process_loop process metas_file (FILE # FILES) s =
     (case process FILE of
        Inl e \<Rightarrow> (Some e, block_raises metas_file FILE s)
      | Inr md \<Rightarrow>
          process_loop process metas_file FILES (log_count (block_returns metas_file FILE md s)))"

subsection \<open>The worker: \<open>__call__\<close> (lines 120 to 263)\<close>

text \<open>
  Lines 260 to 263. \<open>start_time\<close> is a local variable that is bound at line 160 only;
  reading it unbound raises \<open>UnboundLocalError\<close>.
\<close>

definition finish :: "int option \<Rightarrow> int \<Rightarrow> string \<Rightarrow> state \<Rightarrow> error option \<times> state" where
  "finish start_time end_time date s =
     (case start_time of
        None \<Rightarrow> (Some UnboundLocalError, s)
      | Some t0 \<Rightarrow>
          (None, s\<lparr>trace := trace s @ [Log_Done date, Log_Time (end_time - t0)]\<rparr>))"

text \<open>
  The two readings of \<open>timeit.default_timer()\<close> are the parameters \<open>t_start\<close> and
  \<open>t_end\<close>. Creating the output directories and configuring the logger touch neither
  the logs nor the file list and are left out.
\<close>

definition worker_call ::
  "config \<Rightarrow> (string \<Rightarrow> entry list) \<Rightarrow> (entry \<Rightarrow> error + metadata) \<Rightarrow> int \<Rightarrow> int \<Rightarrow>
   string \<Rightarrow> state \<Rightarrow> error option \<times> state" where
  "worker_call cfg scandir process t_start t_end date s =
     (let date_path = join (store_path cfg) date in
      case raw_or_fil scandir date_path of
        None \<Rightarrow> finish None t_end date s
      | Some EXT \<Rightarrow>
          (let s0 = s\<lparr>trace := trace s @ [Log_Start date]\<rparr>;
               FILES = filter_by_ext scandir date_path EXT
           in case reconcile cfg date s0 of
                (Some e, s1, proc_files) \<Rightarrow> (Some e, s1)
              | (None, s1, proc_files) \<Rightarrow>
                  (let FILES1 = remaining FILES proc_files in
                   if NRANKS cfg = 0 then (Some ZeroDivisionError, s1)
                   else
                     (let FILES2 = rank_slice FILES1 (RANK cfg) (NRANKS cfg);
                          metas_file = history_path cfg date (RANK cfg)
                      in case process_loop process metas_file FILES2 s1 of
                           (Some e, s2) \<Rightarrow> (Some e, s2)
                         | (None, s2) \<Rightarrow> finish (Some t_start) t_end date s2))))"

subsection \<open>Example data\<close>

text \<open>
  A configuration for rank \<open>rnk\<close> of \<open>nranks\<close>, three date directories (one with five
  filterbank files, one with raw and filterbank files, one with neither) and a processing
  step that fails on \<open>e.fil\<close> and otherwise returns the metadata of the file.
\<close>

definition cfg_ex :: "nat \<Rightarrow> nat \<Rightarrow> config" where
  "cfg_ex rnk nranks =
     \<lparr>store_path = ''store'', rfi_path = ''rfi'', state_path = ''state'', logs_path = ''logs'',
      RANK = rnk, NRANKS = nranks\<rparr>"

definition file_ex :: "string \<Rightarrow> entry" where
  "file_ex n = \<lparr>name = n, path = ''store/d/'' @ n\<rparr>"

definition process_ex :: "entry \<Rightarrow> error + metadata" where
  "process_ex FILE =
     (if name FILE = ''e.fil'' then Inl (ProcessError (name FILE))
      else Inr \<lparr>fname = name FILE, payload = ''ok''\<rparr>)"

definition dir_ex :: "string \<Rightarrow> entry list" where
  "dir_ex p =
     (if p = ''store/d'' then map file_ex [''a.fil'', ''b.fil'', ''c.fil'', ''d.fil'', ''e.fil'']
      else if p = ''store/both'' then map file_ex [''x.fil'', ''notes.txt'', ''y.raw'']
      else if p = ''store/none'' then map file_ex [''notes.txt'']
      else [])"

definition s_empty :: state where
  "s_empty = \<lparr>logs = [], filelist = [], trace = []\<rparr>"

subsection \<open>Vocabulary of the properties\<close>

text \<open>
  A file system extends another when every log of the first is still there and its
  content then is the old content followed by further objects.
\<close>

definition log_extends :: "(string \<times> logrec list) list \<Rightarrow> (string \<times> logrec list) list \<Rightarrow> bool" where
  "log_extends fs fs' \<longleftrightarrow>
     (\<forall>p rs. map_of fs p = Some rs \<longrightarrow> (\<exists>rs'. map_of fs' p = Some (rs @ rs')))"

subsection \<open>Further example data\<close>

text \<open>
  A processing step that never fails, and the state that a run with one rank leaves when
  it stops after the first file.
\<close>

definition process_ok :: "entry \<Rightarrow> error + metadata" where
  "process_ok FILE = Inr \<lparr>fname = name FILE, payload = ''ok''\<rparr>"

definition s_hist :: state where
  "s_hist =
     \<lparr>logs = [(''logs/d.history_0.log'',
               [Cfg (cfg_ex 0 1), Meta \<lparr>fname = ''a.fil'', payload = ''ok''\<rparr>])],
      filelist = [''a.fil''],
      trace = []\<rparr>"

subsection \<open>The processing order of the specification\<close>




text \<open>
  The order of the amended claim C8: for each owned item in turn, the external step is
  invoked, the metadata is handed to the buffer of the log, the name is handed to the
  buffer of the file list, the file list is closed and receives the name, the log is
  closed and receives the record, and the number of lines of the file list is logged.
\<close>

fun item_events :: "(entry \<Rightarrow> error + metadata) \<Rightarrow> string \<Rightarrow> nat \<Rightarrow> entry list \<Rightarrow> event list" where
  "item_events process mf k [] = []"
| "item_events process mf k (FILE # FILES) =
     [Process (name FILE), Dump mf (projr (process FILE)), List_Write (name FILE),
      Close_List [name FILE], Close_Mem mf [Meta (projr (process FILE))], Log_Count (Suc k)]
     @ item_events process mf (Suc k) FILES"

subsection \<open>Names recorded in a log\<close>

text \<open>The \<open>fname\<close> of every metadata object in a list of pickled objects, in order.\<close>

definition logged_names :: "logrec list \<Rightarrow> string list" where
  "logged_names rs = concat (map (\<lambda>r. case r of Meta m \<Rightarrow> [fname m] | Cfg c \<Rightarrow> []) rs)"

text \<open>A state in which the log of rank 1 exists and has no object.\<close>

definition s_mixed :: state where
  "s_mixed =
     \<lparr>logs = [(''logs/d.history_0.log'',
               [Cfg (cfg_ex 0 2), Meta \<lparr>fname = ''a.fil'', payload = ''ok''\<rparr>]),
              (''logs/d.history_1.log'', [])],
      filelist = [''a.fil''],
      trace = []\<rparr>"

subsection \<open>Histories of runs\<close>

text \<open>
  A log is headed when its first object is a configuration and all further objects are
  metadata. \<open>logs_headed\<close> says that every log found by the glob is headed and that the
  logs of the ranks below \<open>n\<close> exist.
\<close>

fun is_meta :: "logrec \<Rightarrow> bool" where
  "is_meta (Meta m) = True"
| "is_meta (Cfg c) = False"

fun headed :: "logrec list \<Rightarrow> bool" where
  "headed [] = False"
| "headed (Meta m # rs) = False"
| "headed (Cfg c # rs) = list_all is_meta rs"

definition logs_headed :: "config \<Rightarrow> string \<Rightarrow> nat \<Rightarrow> (string \<times> logrec list) list \<Rightarrow> bool" where
  "logs_headed cfg date n fs \<longleftrightarrow>
     (\<forall>p \<in> set (glob_history cfg date fs). headed (unpickler fs p)) \<and>
     (\<forall>rnk < n. map_of fs (history_path cfg date rnk) \<noteq> None)"

text \<open>
  The ranks of a run are separate processes that each call the worker for the date. A
  history is a list of such calls, taken one after the other; a call that ends with an
  exception leaves the state it reached.
\<close>

type_synonym call = "config \<times> (string \<Rightarrow> entry list) \<times> (entry \<Rightarrow> error + metadata) \<times> int \<times> int"

fun run_calls :: "call list \<Rightarrow> string \<Rightarrow> state \<Rightarrow> state" where
  "run_calls [] date s = s"
| "run_calls ((cfg, scandir, process, t_start, t_end) # calls) date s =
     run_calls calls date (snd (worker_call cfg scandir process t_start t_end date s))"

subsection \<open>Reading a rank back from its rendering\<close>

text \<open>The value of a decimal digit and of a string of decimal digits.\<close>

definition char_digit :: "char \<Rightarrow> nat" where
  "char_digit c = length (takeWhile (\<lambda>x. x \<noteq> c) ''0123456789'')"

definition dec_val :: "string \<Rightarrow> nat" where
  "dec_val s = foldl (\<lambda>a c. 10 * a + char_digit c) 0 s"

text \<open>A processing step that fails on \<open>b.fil\<close>.\<close>

definition process_fail_b :: "entry \<Rightarrow> error + metadata" where
  "process_fail_b FILE =
     (if name FILE = ''b.fil'' then Inl (ProcessError (name FILE))
      else Inr \<lparr>fname = name FILE, payload = ''ok''\<rparr>)"

text \<open>
  The state after a run with one rank that stops at \<open>b.fil\<close>, and the state after rank
  1 of a following run with three ranks has processed its slice.
\<close>

definition s_one_rank :: state where
  "s_one_rank = snd (worker_call (cfg_ex 0 1) dir_ex process_fail_b 0 5 ''d'' s_empty)"

definition s_resumed :: state where
  "s_resumed = snd (worker_call (cfg_ex 1 3) dir_ex process_ok 0 5 ''d'' s_one_rank)"

section \<open>Partitioning\<close>

lemma concat_take_chunks:
  "concat (map (\<lambda>i. take n (drop (i * n) xs)) [0 ..< k]) = take (k * n) xs"
proof (induction k)
  case 0
  show ?case by simp
next
  case (Suc k)
  have "Suc k * n = k * n + n" by simp
  then have "take (Suc k * n) xs = take (k * n) xs @ take n (drop (k * n) xs)"
    by (simp only: take_add)
  with Suc show ?case by simp
qed

lemma rank_slice_inner:
  "rnk + 1 \<noteq> nranks \<Longrightarrow>
   rank_slice FILES rnk nranks =
     take (n_files_per_rank (length FILES) nranks)
       (drop (rnk * n_files_per_rank (length FILES) nranks) FILES)"
  by (simp add: rank_slice_def py_slice_def Let_def)

lemma rank_slice_last:
  "rank_slice FILES rnk (Suc rnk) = drop (rnk * n_files_per_rank (length FILES) (Suc rnk)) FILES"
  by (simp add: rank_slice_def py_slice_from_def Let_def)

lemma distinct_concat_disjoint:
  "distinct (concat (map f [0 ..< k])) \<Longrightarrow> i < j \<Longrightarrow> j < k \<Longrightarrow> set (f i) \<inter> set (f j) = {}"
proof (induction k)
  case 0
  then show ?case by simp
next
  case (Suc k)
  from Suc.prems(1) have d: "distinct (concat (map f [0 ..< k]))"
    and e: "set (concat (map f [0 ..< k])) \<inter> set (f k) = {}"
    by simp_all
  show ?case
  proof (cases "j = k")
    case True
    from Suc.prems(2) True have "set (f i) \<subseteq> set (concat (map f [0 ..< k]))" by auto
    with e True show ?thesis by blast
  next
    case False
    with Suc.prems(3) have "j < k" by simp
    with Suc.IH d Suc.prems(2) show ?thesis by blast
  qed
qed

lemma concat_rank_slices:
  assumes "1 \<le> nranks"
  shows "concat (map (\<lambda>rnk. rank_slice FILES rnk nranks) [0 ..< nranks]) = FILES"
proof -
  from assms obtain k where k: "nranks = Suc k" by (cases nranks) auto
  let ?n = "n_files_per_rank (length FILES) nranks"
  have inner: "map (\<lambda>rnk. rank_slice FILES rnk nranks) [0 ..< k]
             = map (\<lambda>i. take ?n (drop (i * ?n) FILES)) [0 ..< k]"
    by (rule map_cong) (auto simp: rank_slice_inner k)
  have "concat (map (\<lambda>rnk. rank_slice FILES rnk nranks) [0 ..< nranks])
      = concat (map (\<lambda>rnk. rank_slice FILES rnk nranks) [0 ..< k]) @ rank_slice FILES k nranks"
    by (simp add: k)
  also have "\<dots> = take (k * ?n) FILES @ drop (k * ?n) FILES"
    by (simp only: inner concat_take_chunks) (simp add: k rank_slice_last)
  finally show ?thesis by simp
qed

text \<open>
  Claim C1 (partition coverage). For every list of files, of any length including zero,
  and every number of ranks from one on, also one larger than the number of files, the
  slices that lines 199 to 212 give to the ranks \<open>0\<close> to \<open>nranks - 1\<close>, put one after
  the other in rank order, are the list itself: every position of the list lies in
  exactly one slice, none is dropped and none is repeated. When the files are pairwise
  different, the slices of two different ranks share no file.
\<close>

theorem partition_coverage:
  assumes "1 \<le> nranks"
  shows "concat (map (\<lambda>rnk. rank_slice FILES rnk nranks) [0 ..< nranks]) = FILES \<and>
         (distinct FILES \<longrightarrow>
            (\<forall>i j. i < nranks \<and> j < nranks \<and> i \<noteq> j \<longrightarrow>
               set (rank_slice FILES i nranks) \<inter> set (rank_slice FILES j nranks) = {}))"
proof (intro conjI impI allI)
  show c: "concat (map (\<lambda>rnk. rank_slice FILES rnk nranks) [0 ..< nranks]) = FILES"
    using assms by (rule concat_rank_slices)
  fix i j
  assume d: "distinct FILES" and ij: "i < nranks \<and> j < nranks \<and> i \<noteq> j"
  from c d have dc: "distinct (concat (map (\<lambda>rnk. rank_slice FILES rnk nranks) [0 ..< nranks]))"
    by simp
  from ij consider "i < j" | "j < i" by linarith
  then show "set (rank_slice FILES i nranks) \<inter> set (rank_slice FILES j nranks) = {}"
  proof cases
    case 1
    with distinct_concat_disjoint [OF dc, of i j] ij show ?thesis by simp
  next
    case 2
    with distinct_concat_disjoint [OF dc, of j i] ij show ?thesis by blast
  qed
qed

text \<open>
  Scenario A of the specification (ten files over three ranks), one file over three
  ranks, and no file at all.
\<close>

theorem partition_coverage_witness:
  "(1::nat) \<le> 3 \<and>
   rank_slice [0, 1, 2, 3, 4, 5, 6, 7, 8, 9 :: nat] 0 3 = [0, 1, 2, 3] \<and>
   rank_slice [0, 1, 2, 3, 4, 5, 6, 7, 8, 9 :: nat] 1 3 = [4, 5, 6, 7] \<and>
   rank_slice [0, 1, 2, 3, 4, 5, 6, 7, 8, 9 :: nat] 2 3 = [8, 9] \<and>
   concat (map (\<lambda>rnk. rank_slice [0, 1, 2, 3, 4, 5, 6, 7, 8, 9 :: nat] rnk 3) [0 ..< 3])
     = [0, 1, 2, 3, 4, 5, 6, 7, 8, 9] \<and>
   map (\<lambda>rnk. rank_slice [0 :: nat] rnk 3) [0 ..< 3] = [[0], [], []] \<and>
   concat (map (\<lambda>rnk. rank_slice [0 :: nat] rnk 3) [0 ..< 3]) = [0] \<and>
   map (\<lambda>rnk. rank_slice ([] :: nat list) rnk 3) [0 ..< 3] = [[], [], []] \<and>
   concat (map (\<lambda>rnk. rank_slice ([] :: nat list) rnk 3) [0 ..< 3]) = []"
proof -
  have three: "[0 ..< 3] = [0, 1, 2 :: nat]" by (simp add: upt_rec)
  have slices:
    "rank_slice [0, 1, 2, 3, 4, 5, 6, 7, 8, 9 :: nat] 0 3 = [0, 1, 2, 3]"
    "rank_slice [0, 1, 2, 3, 4, 5, 6, 7, 8, 9 :: nat] 1 3 = [4, 5, 6, 7]"
    "rank_slice [0, 1, 2, 3, 4, 5, 6, 7, 8, 9 :: nat] 2 3 = [8, 9]"
    "map (\<lambda>rnk. rank_slice [0 :: nat] rnk 3) [0 ..< 3] = [[0], [], []]"
    "map (\<lambda>rnk. rank_slice ([] :: nat list) rnk 3) [0 ..< 3] = [[], [], []]"
    unfolding three
    by (simp_all add: rank_slice_def n_files_per_rank_def py_slice_def py_slice_from_def)
  have h: "(1::nat) \<le> 3" by simp
  from partition_coverage [OF h, of "[0, 1, 2, 3, 4, 5, 6, 7, 8, 9 :: nat]"]
       partition_coverage [OF h, of "[0 :: nat]"]
       partition_coverage [OF h, of "[] :: nat list"]
  show ?thesis using slices h by simp
qed

section \<open>Detection\<close>

lemma filter_by_ext_empty_iff:
  "filter_by_ext scandir p ext = [] \<longleftrightarrow> \<not> (\<exists>e \<in> set (scandir p). endswith (name e) ext)"
  by (auto simp: filter_by_ext_def filter_empty_conv)

text \<open>
  Claim C9 (detection precedence). For every directory, \<open>raw_or_fil\<close> answers \<open>.raw\<close>
  when some entry is a raw file, whether or not filterbank files are present as well;
  otherwise \<open>.fil\<close> when some entry is a filterbank file; otherwise \<open>None\<close>.
\<close>

theorem detection_precedence:
  "raw_or_fil scandir p =
     (if \<exists>e \<in> set (scandir p). endswith (name e) ''.raw'' then Some ''.raw''
      else if \<exists>e \<in> set (scandir p). endswith (name e) ''.fil'' then Some ''.fil''
      else None)"
proof -
  have raw: "(filter_by_ext scandir p ''.raw'' = []) = (\<not> (\<exists>e \<in> set (scandir p). endswith (name e) ''.raw''))"
    by (rule filter_by_ext_empty_iff)
  have fil: "(filter_by_ext scandir p ''.fil'' = []) = (\<not> (\<exists>e \<in> set (scandir p). endswith (name e) ''.fil''))"
    by (rule filter_by_ext_empty_iff)
  show ?thesis
    unfolding raw_or_fil_def using raw fil
    by (cases "filter_by_ext scandir p ''.raw''"; cases "filter_by_ext scandir p ''.fil''") simp_all
qed

theorem detection_precedence_witness:
  "(\<exists>e \<in> set (dir_ex ''store/both''). endswith (name e) ''.raw'') \<and>
   (\<exists>e \<in> set (dir_ex ''store/both''). endswith (name e) ''.fil'') \<and>
   raw_or_fil dir_ex ''store/both'' = Some ''.raw'' \<and>
   raw_or_fil dir_ex ''store/d'' = Some ''.fil'' \<and>
   raw_or_fil dir_ex ''store/none'' = None"
  using detection_precedence [of dir_ex "''store/both''"]
        detection_precedence [of dir_ex "''store/d''"]
        detection_precedence [of dir_ex "''store/none''"]
  by (simp add: dir_ex_def file_ex_def endswith_def)

section \<open>A date without data\<close>

text \<open>
  Claim C3 (no source). The claim asks that a date with neither raw nor filterbank files
  ends without touching the start time. The worker does no processing there and leaves
  the logs, the file list and the trace as they were, but line 261 then reads
  \<open>start_time\<close>, which only line 160 inside the \<open>if EXT:\<close> branch binds: the call ends
  with \<open>UnboundLocalError\<close>.
\<close>

theorem none_source_unbound_start_time:
  assumes "raw_or_fil scandir (join (store_path cfg) date) = None"
  shows "worker_call cfg scandir process t_start t_end date s = (Some UnboundLocalError, s)"
  using assms by (simp add: worker_call_def finish_def)

theorem none_source_unbound_start_time_witness:
  "raw_or_fil dir_ex (join (store_path (cfg_ex 0 1)) ''none'') = None \<and>
   worker_call (cfg_ex 0 1) dir_ex process_ex 0 5 ''none'' s_empty = (Some UnboundLocalError, s_empty)"
proof -
  have h: "raw_or_fil dir_ex (join (store_path (cfg_ex 0 1)) ''none'') = None"
    by code_simp
  from h none_source_unbound_start_time [OF h] show ?thesis by simp
qed

section \<open>Writes to the history logs\<close>

lemma log_extends_refl: "log_extends fs fs"
  by (simp add: log_extends_def)

lemma log_extends_trans: "log_extends a b \<Longrightarrow> log_extends b c \<Longrightarrow> log_extends a c"
  unfolding log_extends_def
proof (intro allI impI)
  fix p rs
  assume ab: "\<forall>p rs. map_of a p = Some rs \<longrightarrow> (\<exists>rs'. map_of b p = Some (rs @ rs'))"
    and bc: "\<forall>p rs. map_of b p = Some rs \<longrightarrow> (\<exists>rs'. map_of c p = Some (rs @ rs'))"
    and a: "map_of a p = Some rs"
  from ab a obtain r1 where "map_of b p = Some (rs @ r1)" by blast
  with bc obtain r2 where "map_of c p = Some ((rs @ r1) @ r2)" by blast
  then show "\<exists>rs'. map_of c p = Some (rs @ rs')" by simp
qed

lemma unpickler_update:
  "unpickler (AList.update k v fs) p = (if p = k then v else unpickler fs p)"
  by (simp add: unpickler_def update_conv')

lemma map_of_open_append:
  "map_of (open_append p fs) q = (if q = p \<and> map_of fs p = None then Some [] else map_of fs q)"
  by (auto simp: open_append_def update_conv' split: option.splits)

lemma unpickler_open_append: "unpickler (open_append p fs) q = unpickler fs q"
  by (simp add: unpickler_def map_of_open_append)

lemma block_returns_simps [simp]:
  "logs (block_returns mf F md s)
     = AList.update mf (unpickler (logs s) mf @ [Meta md]) (open_append mf (logs s))"
  "filelist (block_returns mf F md s) = filelist s @ [name F]"
  "trace (block_returns mf F md s)
     = trace s @ [Process (name F), Dump mf md, List_Write (name F),
                  Close_List [name F], Close_Mem mf [Meta md]]"
  by (simp_all add: block_returns_def close_mem_def close_list_def emit_def open_files_def
        unpickler_open_append)

lemma block_raises_simps [simp]:
  "logs (block_raises mf F s) = AList.update mf (unpickler (logs s) mf) (open_append mf (logs s))"
  "filelist (block_raises mf F s) = filelist s"
  "trace (block_raises mf F s) = trace s @ [Process (name F), Close_List [], Close_Mem mf []]"
  by (simp_all add: block_raises_def close_mem_def close_list_def emit_def open_files_def
        unpickler_open_append)

lemma log_count_simps [simp]:
  "logs (log_count s) = logs s"
  "filelist (log_count s) = filelist s"
  "trace (log_count s) = trace s @ [Log_Count (length (filelist s))]"
  by (simp_all add: log_count_def emit_def)

lemma map_of_written:
  "map_of (AList.update mf (unpickler fs mf @ buf) (open_append mf fs)) q
     = (if q = mf then Some (unpickler fs mf @ buf) else map_of fs q)"
  by (simp add: update_conv' map_of_open_append)

lemma unpickler_written:
  "unpickler (AList.update mf (unpickler fs mf @ buf) (open_append mf fs)) q
     = (if q = mf then unpickler fs mf @ buf else unpickler fs q)"
proof -
  let ?X = "AList.update mf (unpickler fs mf @ buf) (open_append mf fs)"
  have "unpickler ?X q = (case map_of ?X q of None \<Rightarrow> [] | Some rs \<Rightarrow> rs)"
    by (rule unpickler_def)
  also have "\<dots> = (case (if q = mf then Some (unpickler fs mf @ buf) else map_of fs q) of
                      None \<Rightarrow> [] | Some rs \<Rightarrow> rs)"
    by (simp only: map_of_written)
  also have "\<dots> = (if q = mf then unpickler fs mf @ buf else unpickler fs q)"
    by (simp add: unpickler_def)
  finally show ?thesis .
qed

lemma log_extends_update_empty:
  "unpickler fs p = [] \<Longrightarrow> log_extends fs (AList.update p rs fs)"
  by (auto simp: log_extends_def update_conv' unpickler_def split: option.splits)

lemma log_extends_open_append: "log_extends fs (open_append p fs)"
  by (auto simp: log_extends_def map_of_open_append)

lemma log_extends_written:
  "log_extends fs (AList.update mf (unpickler fs mf @ buf) (open_append mf fs))"
  unfolding log_extends_def
proof (intro allI impI)
  fix p rs
  assume old: "map_of fs p = Some rs"
  show "\<exists>rs'. map_of (AList.update mf (unpickler fs mf @ buf) (open_append mf fs)) p
              = Some (rs @ rs')"
  proof (cases "p = mf")
    case True
    with old have "unpickler fs mf = rs" by (simp add: unpickler_def)
    with True map_of_written [of mf fs buf p] show ?thesis by simp
  next
    case False
    with old map_of_written [of mf fs buf p] show ?thesis by simp
  qed
qed

lemma log_extends_block_returns: "log_extends (logs s) (logs (log_count (block_returns mf F md s)))"
  using log_extends_written [of "logs s" mf "[Meta md]"] by simp

lemma log_extends_block_raises: "log_extends (logs s) (logs (block_raises mf F s))"
  using log_extends_written [of "logs s" mf "[]"] by simp

lemma reconcile_loop_extends:
  "reconcile_loop cfg ps s acc = (r, s1, out) \<Longrightarrow> log_extends (logs s) (logs s1)"
proof (induction ps arbitrary: s acc)
  case Nil
  then show ?case by (simp add: log_extends_refl)
next
  case (Cons p ps)
  show ?case
  proof (cases "unpickler (logs s) p")
    case Nil
    let ?s = "s\<lparr>logs := AList.update p [Cfg cfg] (logs s), trace := trace s @ [Write_Header p]\<rparr>"
    from Cons.prems Nil have "reconcile_loop cfg ps ?s acc = (r, s1, out)" by simp
    from Cons.IH [OF this] have "log_extends (AList.update p [Cfg cfg] (logs s)) (logs s1)" by simp
    with log_extends_update_empty [OF Nil] show ?thesis by (blast intro: log_extends_trans)
  next
    case (Cons first metalist)
    show ?thesis
    proof (cases "restore metalist")
      case (Inl e)
      with Cons.prems Cons have "s1 = s" by simp
      then show ?thesis by (simp add: log_extends_refl)
    next
      case (Inr ns)
      with Cons.prems Cons have "reconcile_loop cfg ps s (acc @ ns) = (r, s1, out)" by simp
      then show ?thesis by (rule Cons.IH)
    qed
  qed
qed

lemma process_loop_extends:
  "process_loop process mf FILES s = (r, s') \<Longrightarrow> log_extends (logs s) (logs s')"
proof (induction FILES arbitrary: s)
  case Nil
  then show ?case by (simp add: log_extends_refl)
next
  case (Cons F FILES)
  show ?case
  proof (cases "process F")
    case (Inl e)
    with Cons.prems have "s' = block_raises mf F s" by simp
    then show ?thesis by (simp only: log_extends_block_raises)
  next
    case (Inr md)
    let ?s2 = "log_count (block_returns mf F md s)"
    from Cons.prems Inr have "process_loop process mf FILES ?s2 = (r, s')" by simp
    from Cons.IH [OF this] have "log_extends (logs ?s2) (logs s')" .
    with log_extends_block_returns [of s mf F md] show ?thesis
      by (blast intro: log_extends_trans)
  qed
qed

lemma worker_call_cases:
  assumes "worker_call cfg scandir process t_start t_end date s = (r, s')"
  obtains
    (none) "raw_or_fil scandir (join (store_path cfg) date) = None" "s' = s" "r = Some UnboundLocalError"
  | (reconcile_error) EXT e proc_files where
      "raw_or_fil scandir (join (store_path cfg) date) = Some EXT"
      "reconcile cfg date (s\<lparr>trace := trace s @ [Log_Start date]\<rparr>) = (Some e, s', proc_files)"
      "r = Some e"
  | (no_ranks) EXT proc_files where
      "raw_or_fil scandir (join (store_path cfg) date) = Some EXT"
      "reconcile cfg date (s\<lparr>trace := trace s @ [Log_Start date]\<rparr>) = (None, s', proc_files)"
      "NRANKS cfg = 0" "r = Some ZeroDivisionError"
  | (processed) EXT s1 proc_files s2 where
      "raw_or_fil scandir (join (store_path cfg) date) = Some EXT"
      "reconcile cfg date (s\<lparr>trace := trace s @ [Log_Start date]\<rparr>) = (None, s1, proc_files)"
      "0 < NRANKS cfg"
      "process_loop process (history_path cfg date (RANK cfg))
         (rank_slice (remaining (filter_by_ext scandir (join (store_path cfg) date) EXT) proc_files)
            (RANK cfg) (NRANKS cfg)) s1 = (r, s2)"
      "r \<noteq> None \<and> s' = s2 \<or>
       r = None \<and> s' = s2\<lparr>trace := trace s2 @ [Log_Done date, Log_Time (t_end - t_start)]\<rparr>"
proof (cases "raw_or_fil scandir (join (store_path cfg) date)")
  case None
  with assms none show ?thesis by (simp add: worker_call_def finish_def)
next
  case (Some EXT)
  obtain r1 s1 proc_files where rec: "reconcile cfg date (s\<lparr>trace := trace s @ [Log_Start date]\<rparr>) = (r1, s1, proc_files)"
    by (cases "reconcile cfg date (s\<lparr>trace := trace s @ [Log_Start date]\<rparr>)") auto
  show ?thesis
  proof (cases r1)
    case (Some e)
    with assms \<open>raw_or_fil _ _ = Some EXT\<close> rec have "r = Some e" "s' = s1"
      by (simp_all add: worker_call_def Let_def)
    with \<open>raw_or_fil _ _ = Some EXT\<close> rec Some show ?thesis
      by (intro reconcile_error [of EXT e proc_files]) simp_all
  next
    case None
    show ?thesis
    proof (cases "NRANKS cfg = 0")
      case True
      with assms \<open>raw_or_fil _ _ = Some EXT\<close> rec None have "r = Some ZeroDivisionError" "s' = s1"
        by (simp_all add: worker_call_def Let_def)
      with \<open>raw_or_fil _ _ = Some EXT\<close> rec None True show ?thesis
        by (intro no_ranks [of EXT proc_files]) simp_all
    next
      case False
      obtain r2 s2 where pl: "process_loop process (history_path cfg date (RANK cfg))
         (rank_slice (remaining (filter_by_ext scandir (join (store_path cfg) date) EXT) proc_files)
            (RANK cfg) (NRANKS cfg)) s1 = (r2, s2)"
        by (cases "process_loop process (history_path cfg date (RANK cfg))
         (rank_slice (remaining (filter_by_ext scandir (join (store_path cfg) date) EXT) proc_files)
            (RANK cfg) (NRANKS cfg)) s1") auto
      show ?thesis
      proof (cases r2)
        case (Some e)
        with assms \<open>raw_or_fil _ _ = Some EXT\<close> rec None False pl
        have "r = r2" "s' = s2" by (simp_all add: worker_call_def Let_def)
        with processed [OF \<open>raw_or_fil _ _ = Some EXT\<close>, of s1 proc_files s2] rec None False pl Some
        show ?thesis by simp
      next
        case nn: None
        with assms \<open>raw_or_fil _ _ = Some EXT\<close> rec None False pl
        have "r = None" "s' = s2\<lparr>trace := trace s2 @ [Log_Done date, Log_Time (t_end - t_start)]\<rparr>"
          by (simp_all add: worker_call_def Let_def finish_def)
        with processed [OF \<open>raw_or_fil _ _ = Some EXT\<close>, of s1 proc_files s2] rec None False pl nn
        show ?thesis by simp
      qed
    qed
  qed
qed

text \<open>
  Claim C5 (append only). Whatever a call of the worker does and however it ends, every
  history log that existed before the call still exists after it, and its content is the
  old content with objects added at the end. The \<open>"wb+"\<close> of line 192 is reached only
  for a log from which \<open>unpickler\<close> yields no object.
\<close>

theorem logs_append_only:
  assumes "worker_call cfg scandir process t_start t_end date s = (r, s')"
  shows "log_extends (logs s) (logs s')"
  using assms
proof (cases rule: worker_call_cases)
  case none
  then show ?thesis by (simp add: log_extends_refl)
next
  case (reconcile_error EXT e proc_files)
  from reconcile_loop_extends [OF reconcile_error(2) [unfolded reconcile_def]]
  show ?thesis by simp
next
  case (no_ranks EXT proc_files)
  from reconcile_loop_extends [OF no_ranks(2) [unfolded reconcile_def]]
  show ?thesis by simp
next
  case (processed EXT s1 proc_files s2)
  from reconcile_loop_extends [OF processed(2) [unfolded reconcile_def]]
  have a: "log_extends (logs s) (logs s1)" by simp
  from process_loop_extends [OF processed(4)] have b: "log_extends (logs s1) (logs s2)" .
  from processed(5) have "logs s' = logs s2" by auto
  with a b show ?thesis by (auto intro: log_extends_trans)
qed

theorem logs_append_only_witness:
  "map_of (logs s_hist) ''logs/d.history_0.log''
     = Some [Cfg (cfg_ex 0 1), Meta \<lparr>fname = ''a.fil'', payload = ''ok''\<rparr>] \<and>
   (\<exists>rs'. map_of (logs (snd (worker_call (cfg_ex 0 2) dir_ex process_ex 0 5 ''d'' s_hist)))
            ''logs/d.history_0.log''
          = Some ([Cfg (cfg_ex 0 1), Meta \<lparr>fname = ''a.fil'', payload = ''ok''\<rparr>] @ rs')) \<and>
   map_of (logs (snd (worker_call (cfg_ex 0 2) dir_ex process_ex 0 5 ''d'' s_hist)))
     ''logs/d.history_0.log''
     = Some [Cfg (cfg_ex 0 1), Meta \<lparr>fname = ''a.fil'', payload = ''ok''\<rparr>,
             Meta \<lparr>fname = ''b.fil'', payload = ''ok''\<rparr>,
             Meta \<lparr>fname = ''c.fil'', payload = ''ok''\<rparr>]"
proof -
  let ?w = "worker_call (cfg_ex 0 2) dir_ex process_ex 0 5 ''d'' s_hist"
  have w: "?w = (fst ?w, snd ?w)" by simp
  have h: "map_of (logs s_hist) ''logs/d.history_0.log''
     = Some [Cfg (cfg_ex 0 1), Meta \<lparr>fname = ''a.fil'', payload = ''ok''\<rparr>]"
    by (simp add: s_hist_def)
  have v: "map_of (logs (snd ?w)) ''logs/d.history_0.log''
     = Some [Cfg (cfg_ex 0 1), Meta \<lparr>fname = ''a.fil'', payload = ''ok''\<rparr>,
             Meta \<lparr>fname = ''b.fil'', payload = ''ok''\<rparr>,
             Meta \<lparr>fname = ''c.fil'', payload = ''ok''\<rparr>]"
    by code_simp
  from logs_append_only [OF w] h
  have "\<exists>rs'. map_of (logs (snd ?w)) ''logs/d.history_0.log''
          = Some ([Cfg (cfg_ex 0 1), Meta \<lparr>fname = ''a.fil'', payload = ''ok''\<rparr>] @ rs')"
    unfolding log_extends_def by blast
  with h v show ?thesis by blast
qed

lemma metas_file_list_trace [simp]:
  "metas_file_list cfg date (s\<lparr>trace := t\<rparr>) = metas_file_list cfg date s"
  by (simp add: metas_file_list_def)

lemma reconcile_loop_frame:
  "reconcile_loop cfg ps s acc = (r, s1, out) \<Longrightarrow>
   map_of (logs s1) p = map_of (logs s) p \<or>
   (p \<in> set ps \<and> unpickler (logs s) p = [] \<and> map_of (logs s1) p = Some [Cfg cfg])"
proof (induction ps arbitrary: s acc)
  case Nil
  then show ?case by simp
next
  case (Cons q ps)
  show ?case
  proof (cases "unpickler (logs s) q")
    case Nil
    let ?s = "s\<lparr>logs := AList.update q [Cfg cfg] (logs s), trace := trace s @ [Write_Header q]\<rparr>"
    from Cons.prems Nil have run: "reconcile_loop cfg ps ?s acc = (r, s1, out)" by simp
    from Cons.IH [OF run]
    have ih: "map_of (logs s1) p = map_of (logs ?s) p \<or>
              (p \<in> set ps \<and> unpickler (logs ?s) p = [] \<and> map_of (logs s1) p = Some [Cfg cfg])" .
    show ?thesis
    proof (cases "p = q")
      case True
      have "unpickler (logs ?s) q \<noteq> []" by (simp add: unpickler_update)
      with ih True have "map_of (logs s1) p = Some [Cfg cfg]" by (simp add: update_conv')
      with True Nil show ?thesis by simp
    next
      case False
      then have "map_of (logs ?s) p = map_of (logs s) p" "unpickler (logs ?s) p = unpickler (logs s) p"
        by (simp_all add: update_conv' unpickler_update)
      with ih show ?thesis by auto
    qed
  next
    case (Cons first metalist)
    show ?thesis
    proof (cases "restore metalist")
      case (Inl e)
      with Cons.prems Cons have "s1 = s" by simp
      then show ?thesis by simp
    next
      case (Inr ns)
      with Cons.prems Cons have "reconcile_loop cfg ps s (acc @ ns) = (r, s1, out)" by simp
      from Cons.IH [OF this] show ?thesis by auto
    qed
  qed
qed

lemma reconcile_loop_filelist:
  "reconcile_loop cfg ps s acc = (r, s1, out) \<Longrightarrow> filelist s1 = filelist s"
proof (induction ps arbitrary: s acc)
  case Nil
  then show ?case by simp
next
  case (Cons q ps)
  show ?case
  proof (cases "unpickler (logs s) q")
    case Nil
    let ?s = "s\<lparr>logs := AList.update q [Cfg cfg] (logs s), trace := trace s @ [Write_Header q]\<rparr>"
    from Cons.prems Nil have "reconcile_loop cfg ps ?s acc = (r, s1, out)" by simp
    from Cons.IH [OF this] show ?thesis by simp
  next
    case (Cons first metalist)
    show ?thesis
    proof (cases "restore metalist")
      case (Inl e)
      with Cons.prems Cons show ?thesis by simp
    next
      case (Inr ns)
      with Cons.prems Cons have "reconcile_loop cfg ps s (acc @ ns) = (r, s1, out)" by simp
      then show ?thesis by (rule Cons.IH)
    qed
  qed
qed

lemma process_loop_frame:
  "process_loop process mf FILES s = (r, s') \<Longrightarrow> p \<noteq> mf \<Longrightarrow> map_of (logs s') p = map_of (logs s) p"
proof (induction FILES arbitrary: s)
  case Nil
  then show ?case by simp
next
  case (Cons F FILES)
  show ?case
  proof (cases "process F")
    case (Inl e)
    with Cons.prems(1) have "s' = block_raises mf F s" by simp
    with Cons.prems(2) map_of_written [of mf "logs s" "[]" p] show ?thesis by simp
  next
    case (Inr md)
    let ?s2 = "log_count (block_returns mf F md s)"
    from Cons.prems(1) Inr have "process_loop process mf FILES ?s2 = (r, s')" by simp
    from Cons.IH [OF this Cons.prems(2)] have "map_of (logs s') p = map_of (logs ?s2) p" .
    with Cons.prems(2) map_of_written [of mf "logs s" "[Meta md]" p] show ?thesis by simp
  qed
qed

text \<open>Different ranks have different logs.\<close>

lemma char_digit_digit_char: "d < 10 \<Longrightarrow> char_digit (digit_char d) = d"
  by (auto simp: eval_nat_numeral less_Suc_eq char_digit_def digit_char_def)

lemma dec_val_str_nat: "dec_val (str_nat n) = n"
proof (induction n rule: str_nat.induct)
  case (1 n)
  show ?case
  proof (cases "n < 10")
    case True
    then have "str_nat n = [digit_char n]" by (simp add: str_nat.simps [of n])
    with char_digit_digit_char [OF True] show ?thesis by (simp add: dec_val_def)
  next
    case False
    then have eq: "str_nat n = str_nat (n div 10) @ [digit_char (n mod 10)]"
      by (simp add: str_nat.simps [of n])
    have "n mod 10 < 10" by simp
    then have d: "char_digit (digit_char (n mod 10)) = n mod 10" by (rule char_digit_digit_char)
    from 1 [OF False] have ih: "dec_val (str_nat (n div 10)) = n div 10" .
    have "dec_val (str_nat n) = 10 * dec_val (str_nat (n div 10)) + char_digit (digit_char (n mod 10))"
      unfolding eq by (simp add: dec_val_def)
    with ih d show ?thesis by simp
  qed
qed

lemma str_nat_inj: "str_nat m = str_nat n \<Longrightarrow> m = n"
proof -
  assume "str_nat m = str_nat n"
  then have "dec_val (str_nat m) = dec_val (str_nat n)" by simp
  then show "m = n" by (simp only: dec_val_str_nat)
qed

lemma history_path_inj: "history_path cfg date a = history_path cfg date b \<Longrightarrow> a = b"
  unfolding history_path_def by (simp add: str_nat_inj)

text \<open>
  Claim C4, amended. A call of the worker for rank \<open>RANK\<close> leaves every log other than
  its own as it was, with one exception: a log in \<open>metas_file_list\<close> (the logs found by the
  glob or, when there is none, the expected logs of all ranks of this run) from which no
  object can be read is created or initialised with the pickled configuration. Metadata
  objects are therefore appended to the own log only. By \<open>history_path_inj\<close> the log of
  every other rank is such an other log.
\<close>

theorem write_discipline_amended:
  assumes "worker_call cfg scandir process t_start t_end date s = (r, s')"
    and "p \<noteq> history_path cfg date (RANK cfg)"
  shows "map_of (logs s') p = map_of (logs s) p \<or>
         (p \<in> set (metas_file_list cfg date s) \<and> unpickler (logs s) p = [] \<and>
          map_of (logs s') p = Some [Cfg cfg])"
  using assms(1)
proof (cases rule: worker_call_cases)
  case none
  then show ?thesis by simp
next
  case (reconcile_error EXT e proc_files)
  from reconcile_loop_frame [OF reconcile_error(2) [unfolded reconcile_def], of p]
  show ?thesis by simp
next
  case (no_ranks EXT proc_files)
  from reconcile_loop_frame [OF no_ranks(2) [unfolded reconcile_def], of p]
  show ?thesis by simp
next
  case (processed EXT s1 proc_files s2)
  from reconcile_loop_frame [OF processed(2) [unfolded reconcile_def], of p]
  have a: "map_of (logs s1) p = map_of (logs s) p \<or>
         (p \<in> set (metas_file_list cfg date s) \<and> unpickler (logs s) p = [] \<and>
          map_of (logs s1) p = Some [Cfg cfg])" by simp
  from process_loop_frame [OF processed(4) assms(2)] have "map_of (logs s2) p = map_of (logs s1) p" .
  moreover from processed(5) have "logs s' = logs s2" by auto
  ultimately show ?thesis using a by simp
qed

text \<open>
  Claim C4 (write discipline), as stated, fails: on a first run with two ranks, rank 0
  writes the log named for rank 1, which did not exist, and leaves the pickled
  configuration in it.
\<close>

theorem write_discipline_counterexample:
  "RANK (cfg_ex 0 2) = 0 \<and>
   history_path (cfg_ex 0 2) ''d'' 1 = ''logs/d.history_1.log'' \<and>
   history_path (cfg_ex 0 2) ''d'' 0 \<noteq> ''logs/d.history_1.log'' \<and>
   map_of (logs s_empty) ''logs/d.history_1.log'' = None \<and>
   map_of (logs (snd (worker_call (cfg_ex 0 2) dir_ex process_ex 0 5 ''d'' s_empty)))
     ''logs/d.history_1.log'' = Some [Cfg (cfg_ex 0 2)]"
  by code_simp

theorem write_discipline_amended_witness:
  "''logs/d.history_1.log'' \<noteq> history_path (cfg_ex 0 2) ''d'' (RANK (cfg_ex 0 2)) \<and>
   ''logs/d.history_1.log'' \<in> set (metas_file_list (cfg_ex 0 2) ''d'' s_empty) \<and>
   unpickler (logs s_empty) ''logs/d.history_1.log'' = [] \<and>
   map_of (logs (snd (worker_call (cfg_ex 0 2) dir_ex process_ex 0 5 ''d'' s_empty)))
     ''logs/d.history_1.log'' = Some [Cfg (cfg_ex 0 2)] \<and>
   ''logs/d.history_0.log'' \<noteq> history_path (cfg_ex 1 2) ''d'' (RANK (cfg_ex 1 2)) \<and>
   map_of (logs (snd (worker_call (cfg_ex 1 2) dir_ex process_ex 0 5 ''d'' s_hist)))
     ''logs/d.history_0.log'' = map_of (logs s_hist) ''logs/d.history_0.log''"
proof -
  let ?w = "worker_call (cfg_ex 0 2) dir_ex process_ex 0 5 ''d'' s_empty"
  let ?v = "worker_call (cfg_ex 1 2) dir_ex process_ex 0 5 ''d'' s_hist"
  have ne: "''logs/d.history_1.log'' \<noteq> history_path (cfg_ex 0 2) ''d'' (RANK (cfg_ex 0 2))"
    by code_simp
  have ne': "''logs/d.history_0.log'' \<noteq> history_path (cfg_ex 1 2) ''d'' (RANK (cfg_ex 1 2))"
    by code_simp
  have w: "?w = (fst ?w, snd ?w)" and v: "?v = (fst ?v, snd ?v)" by simp_all
  have before: "map_of (logs s_empty) ''logs/d.history_1.log'' = None"
    by (simp add: s_empty_def)
  have hist: "unpickler (logs s_hist) ''logs/d.history_0.log'' \<noteq> []"
    by (simp add: s_hist_def unpickler_def)
  have emp: "unpickler (logs s_empty) ''logs/d.history_1.log'' = []"
    by (simp add: s_empty_def unpickler_def)
  have after: "map_of (logs (snd ?w)) ''logs/d.history_1.log'' = Some [Cfg (cfg_ex 0 2)]"
    by code_simp
  from write_discipline_amended [OF w ne] before after
  have "''logs/d.history_1.log'' \<in> set (metas_file_list (cfg_ex 0 2) ''d'' s_empty)" by simp
  moreover from write_discipline_amended [OF v ne'] hist
  have "map_of (logs (snd ?v)) ''logs/d.history_0.log'' = map_of (logs s_hist) ''logs/d.history_0.log''"
    by simp
  ultimately show ?thesis using ne ne' emp after by simp
qed

section \<open>The processing loop\<close>

lemma item_events_append:
  "item_events process mf k (xs @ ys)
     = item_events process mf k xs @ item_events process mf (k + length xs) ys"
  by (induction xs arbitrary: k) simp_all

lemma process_loop_append:
  "process_loop process mf (xs @ ys) s =
     (case process_loop process mf xs s of
        (Some e, s1) \<Rightarrow> (Some e, s1)
      | (None, s1) \<Rightarrow> process_loop process mf ys s1)"
proof (induction xs arbitrary: s)
  case Nil
  show ?case by simp
next
  case (Cons F xs)
  show ?case
  proof (cases "process F")
    case (Inl e)
    then show ?thesis by simp
  next
    case (Inr md)
    then show ?thesis by (simp add: Cons.IH)
  qed
qed

lemma process_loop_all_ok:
  assumes "\<forall>F \<in> set FILES. \<not> isl (process F)"
  shows "\<exists>s'. process_loop process mf FILES s = (None, s') \<and>
              trace s' = trace s @ item_events process mf (length (filelist s)) FILES \<and>
              filelist s' = filelist s @ map name FILES \<and>
              unpickler (logs s') mf
                = unpickler (logs s) mf @ map (\<lambda>F. Meta (projr (process F))) FILES"
  using assms
proof (induction FILES arbitrary: s)
  case Nil
  show ?case by simp
next
  case (Cons F FILES)
  from Cons.prems obtain md where md: "process F = Inr md" by (cases "process F") auto
  let ?s2 = "log_count (block_returns mf F md s)"
  have step: "process_loop process mf (F # FILES) s = process_loop process mf FILES ?s2"
    using md by simp
  have fl2: "filelist ?s2 = filelist s @ [name F]" by simp
  have tr2: "trace ?s2 = trace s @ [Process (name F), Dump mf md, List_Write (name F),
                                   Close_List [name F], Close_Mem mf [Meta md],
                                   Log_Count (Suc (length (filelist s)))]"
    by simp
  have lg2: "unpickler (logs ?s2) mf = unpickler (logs s) mf @ [Meta md]"
    using unpickler_written [of mf "logs s" "[Meta md]" mf] by simp
  from Cons.prems have "\<forall>F \<in> set FILES. \<not> isl (process F)" by simp
  from Cons.IH [OF this, of ?s2] obtain s' where
    run: "process_loop process mf FILES ?s2 = (None, s')"
    and tr: "trace s' = trace ?s2 @ item_events process mf (length (filelist ?s2)) FILES"
    and fl: "filelist s' = filelist ?s2 @ map name FILES"
    and lg: "unpickler (logs s') mf = unpickler (logs ?s2) mf @ map (\<lambda>F. Meta (projr (process F))) FILES"
    by blast
  from lg lg2 md have lg': "unpickler (logs s') mf
      = unpickler (logs s) mf @ map (\<lambda>F. Meta (projr (process F))) (F # FILES)"
    by simp
  from tr tr2 fl2 md
  have tr': "trace s' = trace s @ item_events process mf (length (filelist s)) (F # FILES)"
    by simp
  from fl fl2 have fl': "filelist s' = filelist s @ map name (F # FILES)" by simp
  from step run tr' fl' lg' show ?case by simp
qed

lemma process_loop_fails:
  assumes "\<forall>G \<in> set pre. \<not> isl (process G)" and "process F = Inl e"
  shows "\<exists>s'. process_loop process mf (pre @ F # post) s = (Some e, s') \<and>
              trace s' = trace s @ item_events process mf (length (filelist s)) pre
                           @ [Process (name F), Close_List [], Close_Mem mf []] \<and>
              filelist s' = filelist s @ map name pre \<and>
              unpickler (logs s') mf
                = unpickler (logs s) mf @ map (\<lambda>G. Meta (projr (process G))) pre"
proof -
  from process_loop_all_ok [OF assms(1), of mf s] obtain s1 where
    run: "process_loop process mf pre s = (None, s1)"
    and tr: "trace s1 = trace s @ item_events process mf (length (filelist s)) pre"
    and fl: "filelist s1 = filelist s @ map name pre"
    and lg: "unpickler (logs s1) mf = unpickler (logs s) mf @ map (\<lambda>G. Meta (projr (process G))) pre"
    by blast
  let ?s' = "block_raises mf F s1"
  have "process_loop process mf (F # post) s1 = (Some e, ?s')"
    using assms(2) by simp
  with run have "process_loop process mf (pre @ F # post) s = (Some e, ?s')"
    by (simp add: process_loop_append)
  moreover have "trace ?s' = trace s @ item_events process mf (length (filelist s)) pre
                   @ [Process (name F), Close_List [], Close_Mem mf []]"
    using tr by simp
  moreover have "filelist ?s' = filelist s @ map name pre" using fl by simp
  moreover have "unpickler (logs ?s') mf = unpickler (logs s) mf @ map (\<lambda>G. Meta (projr (process G))) pre"
    using lg unpickler_written [of mf "logs s1" "[]" mf] by simp
  ultimately show ?thesis by blast
qed




section \<open>Reconciliation\<close>

lemma logged_names_simps [simp]:
  "logged_names [] = []"
  "logged_names (Meta m # rs) = fname m # logged_names rs"
  "logged_names (Cfg c # rs) = logged_names rs"
  "logged_names (xs @ ys) = logged_names xs @ logged_names ys"
  by (simp_all add: logged_names_def)

lemma set_logged_names: "set (logged_names rs) = {fname m | m. Meta m \<in> set rs}"
proof (induction rs)
  case Nil
  show ?case by simp
next
  case (Cons r rs)
  then show ?case by (cases r) auto
qed

lemma restore_names: "restore rs = Inr ns \<Longrightarrow> ns = logged_names rs"
proof (induction rs arbitrary: ns rule: restore.induct)
  case 1
  then show ?case by simp
next
  case (2 m rs)
  then show ?case by (cases "restore rs") auto
next
  case (3 c rs)
  then show ?case by simp
qed

lemma reconcile_loop_names:
  "reconcile_loop cfg ps s acc = (None, s1, out) \<Longrightarrow>
   set out = set acc \<union> (\<Union>p \<in> set ps. set (logged_names (tl (unpickler (logs s) p))))"
proof (induction ps arbitrary: s acc)
  case Nil
  then show ?case by simp
next
  case (Cons q ps)
  show ?case
  proof (cases "unpickler (logs s) q")
    case Nil
    let ?s = "s\<lparr>logs := AList.update q [Cfg cfg] (logs s), trace := trace s @ [Write_Header q]\<rparr>"
    from Cons.prems Nil have run: "reconcile_loop cfg ps ?s acc = (None, s1, out)" by simp
    have same: "logged_names (tl (unpickler (logs ?s) p)) = logged_names (tl (unpickler (logs s) p))" for p
      using Nil by (simp add: unpickler_update)
    from Cons.IH [OF run] have "set out = set acc \<union> (\<Union>p \<in> set ps. set (logged_names (tl (unpickler (logs s) p))))"
      by (simp only: same)
    with Nil show ?thesis by simp
  next
    case (Cons first metalist)
    show ?thesis
    proof (cases "restore metalist")
      case (Inl e)
      with Cons.prems Cons show ?thesis by simp
    next
      case (Inr ns)
      with Cons.prems Cons have run: "reconcile_loop cfg ps s (acc @ ns) = (None, s1, out)" by simp
      from restore_names [OF Inr] have "ns = logged_names metalist" .
      with Cons.IH [OF run] Cons show ?thesis by auto
    qed
  qed
qed

lemma reconcile_loop_inits:
  "reconcile_loop cfg ps s acc = (None, s1, out) \<Longrightarrow> p \<in> set ps \<Longrightarrow>
   unpickler (logs s) p = [] \<Longrightarrow> map_of (logs s1) p = Some [Cfg cfg]"
proof (induction ps arbitrary: s acc)
  case Nil
  then show ?case by simp
next
  case (Cons q ps)
  show ?case
  proof (cases "unpickler (logs s) q")
    case Nil
    let ?s = "s\<lparr>logs := AList.update q [Cfg cfg] (logs s), trace := trace s @ [Write_Header q]\<rparr>"
    from Cons.prems(1) Nil have run: "reconcile_loop cfg ps ?s acc = (None, s1, out)" by simp
    show ?thesis
    proof (cases "p = q")
      case True
      have "map_of (logs ?s) p = Some [Cfg cfg]" using True by (simp add: update_conv')
      with reconcile_loop_frame [OF run, of p] show ?thesis by auto
    next
      case False
      with Cons.prems have "p \<in> set ps" "unpickler (logs ?s) p = []"
        by (simp_all add: unpickler_update)
      with Cons.IH [OF run] show ?thesis by blast
    qed
  next
    case (Cons first metalist)
    with Cons.prems(3) have ne: "p \<noteq> q" by auto
    show ?thesis
    proof (cases "restore metalist")
      case (Inl e)
      with Cons.prems Cons show ?thesis by simp
    next
      case (Inr ns)
      with Cons.prems(1) Cons have run: "reconcile_loop cfg ps s (acc @ ns) = (None, s1, out)" by simp
      from ne Cons.prems(2) have "p \<in> set ps" by simp
      with Cons.IH [OF run] Cons.prems(3) show ?thesis by blast
    qed
  qed
qed

lemma reconcile_loop_bootstrap:
  "\<forall>p \<in> set ps. unpickler (logs s) p = [] \<or> unpickler (logs s) p = [Cfg cfg] \<Longrightarrow>
   \<exists>s1. reconcile_loop cfg ps s acc = (None, s1, acc)"
proof (induction ps arbitrary: s)
  case Nil
  show ?case by simp
next
  case (Cons q ps)
  show ?case
  proof (cases "unpickler (logs s) q")
    case Nil
    let ?s = "s\<lparr>logs := AList.update q [Cfg cfg] (logs s), trace := trace s @ [Write_Header q]\<rparr>"
    have "\<forall>p \<in> set ps. unpickler (logs ?s) p = [] \<or> unpickler (logs ?s) p = [Cfg cfg]"
      using Cons.prems by (simp add: unpickler_update)
    from Cons.IH [OF this] Nil show ?thesis by simp
  next
    case (Cons first metalist)
    with Cons.prems have "metalist = []" by auto
    moreover from Cons.prems have "\<forall>p \<in> set ps. unpickler (logs s) p = [] \<or> unpickler (logs s) p = [Cfg cfg]"
      by simp
    from Cons.IH [OF this] obtain s1 where "reconcile_loop cfg ps s acc = (None, s1, acc)" by blast
    ultimately show ?thesis using Cons by simp
  qed
qed

lemma digit_char_digit: "d < 10 \<Longrightarrow> digit_char d \<in> set ''0123456789''"
  unfolding digit_char_def by (rule nth_mem) simp

lemma str_nat_digits: "set (str_nat n) \<subseteq> set ''0123456789''"
proof (induction n rule: str_nat.induct)
  case (1 n)
  show ?case
  proof (cases "n < 10")
    case True
    then have "str_nat n = [digit_char n]" by (simp add: str_nat.simps [of n])
    with digit_char_digit [OF True] show ?thesis by simp
  next
    case False
    then have eq: "str_nat n = str_nat (n div 10) @ [digit_char (n mod 10)]"
      by (simp add: str_nat.simps [of n])
    have "n mod 10 < 10" by simp
    then have "digit_char (n mod 10) \<in> set ''0123456789''" by (rule digit_char_digit)
    with 1 [OF False] show ?thesis unfolding eq by simp
  qed
qed

lemma str_nat_no_slash: "CHR ''/'' \<notin> set (str_nat n)"
proof
  assume "CHR ''/'' \<in> set (str_nat n)"
  with str_nat_digits [of n] have "CHR ''/'' \<in> set ''0123456789''" by blast
  then show False by simp
qed

lemma glob_match_history_path:
  assumes "logs_path cfg' = logs_path cfg"
  shows "glob_match cfg date (history_path cfg' date rnk)"
proof -
  have pre: "history_prefix cfg' date = history_prefix cfg date"
    using assms by (simp add: history_prefix_def)
  show ?thesis
    unfolding glob_match_def Let_def history_path_def pre
    by (simp add: str_nat_no_slash)
qed

lemma glob_empty_absent:
  assumes "glob_history cfg date fs = []" and "glob_match cfg date p"
  shows "map_of fs p = None"
proof (rule ccontr)
  assume "map_of fs p \<noteq> None"
  then obtain rs where "map_of fs p = Some rs" by auto
  then have "(p, rs) \<in> set fs" by (rule map_of_SomeD)
  then have "p \<in> set (map fst fs)" by force
  with assms(2) have "p \<in> set (glob_history cfg date fs)" by (simp add: glob_history_def)
  with assms(1) show False by simp
qed

text \<open>
  Claim C7 (empty-log bootstrap). First part: when reconciliation succeeds, the set of
  completed names is made of the names recorded after the first object of the logs that
  hold at least one object, so a log without any object gives no name; such a log is
  initialised and holds the pickled configuration, and no completion record, afterwards.
  Second part: when the glob finds no log at all, the list of logs is the expected names
  of the ranks \<open>0\<close> to \<open>NRANKS - 1\<close> of the current run, none of them existed, each holds
  exactly the pickled configuration afterwards, and the completed set is empty.
\<close>

theorem empty_log_bootstrap:
  "(reconcile cfg date s = (None, s1, proc_files) \<longrightarrow>
      set proc_files
        = {n. \<exists>p first rest. p \<in> set (metas_file_list cfg date s) \<and>
                unpickler (logs s) p = first # rest \<and> n \<in> set (logged_names rest)} \<and>
      (\<forall>p \<in> set (metas_file_list cfg date s).
         unpickler (logs s) p = [] \<longrightarrow> map_of (logs s1) p = Some [Cfg cfg])) \<and>
   (glob_history cfg date (logs s) = [] \<longrightarrow>
      (\<exists>s0. reconcile cfg date s = (None, s0, []) \<and>
            metas_file_list cfg date s = map (history_path cfg date) [0 ..< NRANKS cfg] \<and>
            (\<forall>rnk < NRANKS cfg.
               map_of (logs s) (history_path cfg date rnk) = None \<and>
               map_of (logs s0) (history_path cfg date rnk) = Some [Cfg cfg])))"
proof (intro conjI impI)
  assume rec: "reconcile cfg date s = (None, s1, proc_files)"
  let ?ps = "metas_file_list cfg date s"
  from reconcile_loop_names [OF rec [unfolded reconcile_def]]
  have "set proc_files = (\<Union>p \<in> set ?ps. set (logged_names (tl (unpickler (logs s) p))))"
    by simp
  also have "\<dots> = {n. \<exists>p first rest. p \<in> set ?ps \<and>
                unpickler (logs s) p = first # rest \<and> n \<in> set (logged_names rest)}"
  proof (rule set_eqI)
    fix n
    show "n \<in> (\<Union>p \<in> set ?ps. set (logged_names (tl (unpickler (logs s) p)))) \<longleftrightarrow>
          n \<in> {n. \<exists>p first rest. p \<in> set ?ps \<and>
                unpickler (logs s) p = first # rest \<and> n \<in> set (logged_names rest)}"
    proof
      assume "n \<in> (\<Union>p \<in> set ?ps. set (logged_names (tl (unpickler (logs s) p))))"
      then obtain p where p: "p \<in> set ?ps" and n: "n \<in> set (logged_names (tl (unpickler (logs s) p)))"
        by blast
      from n obtain first rest where "unpickler (logs s) p = first # rest"
        by (cases "unpickler (logs s) p") auto
      with p n show "n \<in> {n. \<exists>p first rest. p \<in> set ?ps \<and>
                unpickler (logs s) p = first # rest \<and> n \<in> set (logged_names rest)}"
        by auto
    next
      assume "n \<in> {n. \<exists>p first rest. p \<in> set ?ps \<and>
                unpickler (logs s) p = first # rest \<and> n \<in> set (logged_names rest)}"
      then obtain p first rest where "p \<in> set ?ps" "unpickler (logs s) p = first # rest"
        "n \<in> set (logged_names rest)" by blast
      then show "n \<in> (\<Union>p \<in> set ?ps. set (logged_names (tl (unpickler (logs s) p))))"
        by force
    qed
  qed
  finally show "set proc_files = {n. \<exists>p first rest. p \<in> set ?ps \<and>
                unpickler (logs s) p = first # rest \<and> n \<in> set (logged_names rest)}" .
  show "\<forall>p \<in> set ?ps. unpickler (logs s) p = [] \<longrightarrow> map_of (logs s1) p = Some [Cfg cfg]"
    using reconcile_loop_inits [OF rec [unfolded reconcile_def]] by blast
next
  assume empty: "glob_history cfg date (logs s) = []"
  let ?ps = "map (history_path cfg date) [0 ..< NRANKS cfg]"
  from empty have list: "metas_file_list cfg date s = ?ps"
    by (simp add: metas_file_list_def)
  have absent: "map_of (logs s) (history_path cfg date rnk) = None" for rnk
    using empty by (rule glob_empty_absent) (simp add: glob_match_history_path)
  then have none: "unpickler (logs s) (history_path cfg date rnk) = []" for rnk
    by (simp add: unpickler_def)
  have "\<forall>p \<in> set ?ps. unpickler (logs s) p = [] \<or> unpickler (logs s) p = [Cfg cfg]"
    using none by auto
  from reconcile_loop_bootstrap [OF this, of "[]"] obtain s0 where
    run: "reconcile_loop cfg ?ps s [] = (None, s0, [])" by blast
  have "map_of (logs s0) (history_path cfg date rnk) = Some [Cfg cfg]" if "rnk < NRANKS cfg" for rnk
    using run
  proof (rule reconcile_loop_inits)
    show "history_path cfg date rnk \<in> set ?ps" using that by simp
    show "unpickler (logs s) (history_path cfg date rnk) = []" by (rule none)
  qed
  with run list absent
  show "\<exists>s0. reconcile cfg date s = (None, s0, []) \<and>
            metas_file_list cfg date s = ?ps \<and>
            (\<forall>rnk < NRANKS cfg.
               map_of (logs s) (history_path cfg date rnk) = None \<and>
               map_of (logs s0) (history_path cfg date rnk) = Some [Cfg cfg])"
    by (auto simp: reconcile_def)
qed

theorem empty_log_bootstrap_witness:
  "reconcile (cfg_ex 0 2) ''d'' s_mixed
     = (None, fst (snd (reconcile (cfg_ex 0 2) ''d'' s_mixed)), [''a.fil'']) \<and>
   ''logs/d.history_1.log'' \<in> set (metas_file_list (cfg_ex 0 2) ''d'' s_mixed) \<and>
   unpickler (logs s_mixed) ''logs/d.history_1.log'' = [] \<and>
   map_of (logs (fst (snd (reconcile (cfg_ex 0 2) ''d'' s_mixed)))) ''logs/d.history_1.log''
     = Some [Cfg (cfg_ex 0 2)] \<and>
   glob_history (cfg_ex 0 2) ''d'' (logs s_empty) = [] \<and>
   (\<exists>s0. reconcile (cfg_ex 0 2) ''d'' s_empty = (None, s0, []) \<and>
         map_of (logs s0) (history_path (cfg_ex 0 2) ''d'' 0) = Some [Cfg (cfg_ex 0 2)] \<and>
         map_of (logs s0) (history_path (cfg_ex 0 2) ''d'' 1) = Some [Cfg (cfg_ex 0 2)])"
proof -
  let ?cfg = "cfg_ex 0 2"
  let ?s1 = "fst (snd (reconcile ?cfg ''d'' s_mixed))"
  have rec: "reconcile ?cfg ''d'' s_mixed = (None, ?s1, [''a.fil''])"
    by code_simp
  have mem: "''logs/d.history_1.log'' \<in> set (metas_file_list ?cfg ''d'' s_mixed)"
    by code_simp
  have emp: "unpickler (logs s_mixed) ''logs/d.history_1.log'' = []"
    by (simp add: s_mixed_def unpickler_def)
  have glob: "glob_history ?cfg ''d'' (logs s_empty) = []"
    by (simp add: s_empty_def glob_history_def)
  have nr: "NRANKS ?cfg = 2" by (simp add: cfg_ex_def)
  note inst = empty_log_bootstrap [of ?cfg "''d''" s_mixed ?s1 "[''a.fil'']"]
  from inst rec mem emp
  have a: "map_of (logs ?s1) ''logs/d.history_1.log'' = Some [Cfg ?cfg]" by blast
  from empty_log_bootstrap [of ?cfg "''d''" s_empty] glob obtain s0 where
    r0: "reconcile ?cfg ''d'' s_empty = (None, s0, [])"
    and all: "\<forall>rnk < NRANKS ?cfg.
               map_of (logs s_empty) (history_path ?cfg ''d'' rnk) = None \<and>
               map_of (logs s0) (history_path ?cfg ''d'' rnk) = Some [Cfg ?cfg]"
    by blast
  from all nr have "map_of (logs s0) (history_path ?cfg ''d'' 0) = Some [Cfg ?cfg]"
    "map_of (logs s0) (history_path ?cfg ''d'' 1) = Some [Cfg ?cfg]" by simp_all
  with r0 rec mem emp a glob show ?thesis by blast
qed

section \<open>A rank without an initialised log\<close>

lemma failure_propagates:
  assumes det: "raw_or_fil scandir (join (store_path cfg) date) = Some EXT"
    and rec: "reconcile cfg date (s\<lparr>trace := trace s @ [Log_Start date]\<rparr>) = (None, s1, proc_files)"
    and nr: "0 < NRANKS cfg"
    and slice: "rank_slice (remaining (filter_by_ext scandir (join (store_path cfg) date) EXT)
                  proc_files) (RANK cfg) (NRANKS cfg) = pre @ F # post"
    and ok: "\<forall>G \<in> set pre. \<not> isl (process G)"
    and bad: "process F = Inl e"
  shows "\<exists>s'. worker_call cfg scandir process t_start t_end date s = (Some e, s') \<and>
              unpickler (logs s') (history_path cfg date (RANK cfg))
                = unpickler (logs s1) (history_path cfg date (RANK cfg))
                    @ map (\<lambda>G. Meta (projr (process G))) pre \<and>
              filelist s' = filelist s @ map name pre \<and>
              trace s' = trace s1
                @ item_events process (history_path cfg date (RANK cfg)) (length (filelist s)) pre
                @ [Process (name F), Close_List [], Close_Mem (history_path cfg date (RANK cfg)) []]"
proof -
  let ?mf = "history_path cfg date (RANK cfg)"
  from process_loop_fails [OF ok bad, of ?mf post s1] obtain s' where
    run: "process_loop process ?mf (pre @ F # post) s1 = (Some e, s')"
    and tr: "trace s' = trace s1 @ item_events process ?mf (length (filelist s1)) pre
                          @ [Process (name F), Close_List [], Close_Mem ?mf []]"
    and fl: "filelist s' = filelist s1 @ map name pre"
    and lg: "unpickler (logs s') ?mf = unpickler (logs s1) ?mf @ map (\<lambda>G. Meta (projr (process G))) pre"
    by blast
  from reconcile_loop_filelist [OF rec [unfolded reconcile_def]] have f1: "filelist s1 = filelist s"
    by simp
  have "worker_call cfg scandir process t_start t_end date s = (Some e, s')"
    using det rec nr slice run by (simp add: worker_call_def Let_def)
  with tr fl lg f1 show ?thesis by simp
qed

text \<open>
  The state \<open>s_hist\<close> is what a run with one rank leaves behind when the external step
  fails on the second file.
\<close>

lemma s_hist_reachable:
  "fst (worker_call (cfg_ex 0 1) dir_ex process_fail_b 0 5 ''d'' s_empty)
     = Some (ProcessError ''b.fil'') \<and>
   logs (snd (worker_call (cfg_ex 0 1) dir_ex process_fail_b 0 5 ''d'' s_empty)) = logs s_hist \<and>
   filelist (snd (worker_call (cfg_ex 0 1) dir_ex process_fail_b 0 5 ''d'' s_empty))
     = filelist s_hist"
  by code_simp

text \<open>
  Claim C10 (log header). Reconciliation drops the first object of every log, and a log
  that the worker initialises starts with the pickled configuration. The claim that every
  log starts with the configuration and that the first completion record of a rank lands
  at position 1 fails when the glob finds logs but not the log of this rank: after a run
  with one rank, rank 1 of two finds only the log of rank 0, never initialises its own
  log, and appends its metadata to a log created by \<open>open(metas_file, "ab")\<close>. The
  record of \<open>d.fil\<close> is then the first object of that log, and the next reconciliation
  drops it: \<open>d.fil\<close> is not among the completed names.
\<close>

theorem header_missing_after_rank_growth:
  "glob_history (cfg_ex 1 2) ''d'' (logs s_hist) = [''logs/d.history_0.log''] \<and>
   history_path (cfg_ex 1 2) ''d'' (RANK (cfg_ex 1 2)) = ''logs/d.history_1.log'' \<and>
   map_of (logs s_hist) ''logs/d.history_1.log'' = None \<and>
   fst (worker_call (cfg_ex 1 2) dir_ex process_ok 0 5 ''d'' s_hist) = None \<and>
   map_of (logs (snd (worker_call (cfg_ex 1 2) dir_ex process_ok 0 5 ''d'' s_hist)))
     ''logs/d.history_1.log''
     = Some [Meta \<lparr>fname = ''d.fil'', payload = ''ok''\<rparr>,
             Meta \<lparr>fname = ''e.fil'', payload = ''ok''\<rparr>] \<and>
   snd (snd (reconcile (cfg_ex 1 2) ''d''
               (snd (worker_call (cfg_ex 1 2) dir_ex process_ok 0 5 ''d'' s_hist))))
     = [''a.fil'', ''e.fil''] \<and>
   ''d.fil'' \<notin> set (snd (snd (reconcile (cfg_ex 1 2) ''d''
               (snd (worker_call (cfg_ex 1 2) dir_ex process_ok 0 5 ''d'' s_hist)))))"
  by code_simp

text \<open>
  Claim C6 (failure atomicity). The failure of the external step is not caught, the
  records dumped before it stay in the log and neither the failing file nor a later one is
  recorded (lemma \<open>failure_propagates\<close>). That a record written before the failure is
  honoured by the next run fails in the situation of claim C10: rank 1 of two, after a run
  with one rank, processes \<open>d.fil\<close> and fails on \<open>e.fil\<close>; the record of \<open>d.fil\<close> is
  the first object of its log, the next reconciliation does not see it, and the next run
  of rank 1 processes \<open>d.fil\<close> again.
\<close>

theorem record_before_failure_not_honored:
  "fst (worker_call (cfg_ex 1 2) dir_ex process_ex 0 5 ''d'' s_hist)
     = Some (ProcessError ''e.fil'') \<and>
   map_of (logs (snd (worker_call (cfg_ex 1 2) dir_ex process_ex 0 5 ''d'' s_hist)))
     ''logs/d.history_1.log''
     = Some [Meta \<lparr>fname = ''d.fil'', payload = ''ok''\<rparr>] \<and>
   snd (snd (reconcile (cfg_ex 1 2) ''d''
               (snd (worker_call (cfg_ex 1 2) dir_ex process_ex 0 5 ''d'' s_hist))))
     = [''a.fil''] \<and>
   map name (rank_slice (remaining (filter_by_ext dir_ex ''store/d'' ''.fil'') [''a.fil'']) 1 2)
     = [''d.fil'', ''e.fil''] \<and>
   Process ''d.fil'' \<in> set (trace (snd (worker_call (cfg_ex 1 2) dir_ex process_ok 0 5 ''d''
       ((snd (worker_call (cfg_ex 1 2) dir_ex process_ex 0 5 ''d'' s_hist))\<lparr>trace := []\<rparr>))))"
  by code_simp

section \<open>Resuming with another number of ranks\<close>

lemma set_glob_history:
  "p \<in> set (glob_history cfg date fs) \<longleftrightarrow> glob_match cfg date p \<and> map_of fs p \<noteq> None"
  by (auto simp: glob_history_def map_of_eq_None_iff)

lemma history_prefix_cong:
  "logs_path cfg' = logs_path cfg \<Longrightarrow> history_prefix cfg' date = history_prefix cfg date"
  unfolding history_prefix_def by simp

lemma glob_match_cong:
  assumes "logs_path cfg' = logs_path cfg"
  shows "glob_match cfg' date = glob_match cfg date"
  unfolding glob_match_def history_prefix_cong [OF assms] ..

lemma glob_history_cong:
  assumes "logs_path cfg' = logs_path cfg"
  shows "glob_history cfg' date fs = glob_history cfg date fs"
  unfolding glob_history_def glob_match_cong [OF assms] ..

lemma history_path_cong:
  assumes "logs_path cfg' = logs_path cfg"
  shows "history_path cfg' date rnk = history_path cfg date rnk"
  unfolding history_path_def history_prefix_cong [OF assms] ..

lemma logs_headed_cong:
  assumes "logs_path cfg' = logs_path cfg"
  shows "logs_headed cfg' date n fs = logs_headed cfg date n fs"
  unfolding logs_headed_def glob_history_cong [OF assms] history_path_cong [OF assms] ..

lemma headed_append_metas: "headed rs \<Longrightarrow> list_all is_meta ms \<Longrightarrow> headed (rs @ ms)"
proof (cases rs)
  case Nil
  assume "headed rs"
  with Nil show ?thesis by simp
next
  case (Cons r rs')
  assume "headed rs" "list_all is_meta ms"
  with Cons show ?thesis by (cases r) simp_all
qed

lemma restore_metas: "list_all is_meta rs \<Longrightarrow> restore rs = Inr (logged_names rs)"
proof (induction rs)
  case Nil
  show ?case by simp
next
  case (Cons r rs)
  then show ?case by (cases r) simp_all
qed

lemma headed_restore_tl: "headed rs \<Longrightarrow> restore (tl rs) = Inr (logged_names rs)"
proof (cases rs)
  case Nil
  assume "headed rs"
  with Nil show ?thesis by simp
next
  case (Cons r rs')
  assume "headed rs"
  with Cons show ?thesis by (cases r) (simp_all add: restore_metas)
qed

lemma reconcile_loop_headed:
  "\<forall>p \<in> set ps. headed (unpickler (logs s) p) \<Longrightarrow>
   reconcile_loop cfg ps s acc
     = (None, s, acc @ concat (map (\<lambda>p. logged_names (unpickler (logs s) p)) ps))"
proof (induction ps arbitrary: acc)
  case Nil
  show ?case by simp
next
  case (Cons q ps)
  from Cons.prems have hq: "headed (unpickler (logs s) q)" by simp
  then obtain first metalist where eq: "unpickler (logs s) q = first # metalist"
    by (cases "unpickler (logs s) q") auto
  from headed_restore_tl [OF hq] eq have "restore metalist = Inr (logged_names (unpickler (logs s) q))"
    by simp
  moreover from Cons.prems have "\<forall>p \<in> set ps. headed (unpickler (logs s) p)" by simp
  note Cons.IH [OF this]
  ultimately show ?case using eq by simp
qed

lemma process_loop_own_log:
  "process_loop process mf FILES s = (r, s') \<Longrightarrow>
   \<exists>ms. list_all is_meta ms \<and> unpickler (logs s') mf = unpickler (logs s) mf @ ms"
proof (induction FILES arbitrary: s)
  case Nil
  then show ?case by auto
next
  case (Cons F FILES)
  show ?case
  proof (cases "process F")
    case (Inl e)
    with Cons.prems have "s' = block_raises mf F s" by simp
    with unpickler_written [of mf "logs s" "[]" mf]
    have "unpickler (logs s') mf = unpickler (logs s) mf @ []" by simp
    then show ?thesis by (intro exI [of _ "[]"]) simp
  next
    case (Inr md)
    let ?s2 = "log_count (block_returns mf F md s)"
    from Cons.prems Inr have "process_loop process mf FILES ?s2 = (r, s')" by simp
    from Cons.IH [OF this] obtain ms where ms: "list_all is_meta ms"
      and eq: "unpickler (logs s') mf = unpickler (logs ?s2) mf @ ms" by blast
    from unpickler_written [of mf "logs s" "[Meta md]" mf]
    have "unpickler (logs ?s2) mf = unpickler (logs s) mf @ [Meta md]" by simp
    with eq have "unpickler (logs s') mf = unpickler (logs s) mf @ (Meta md # ms)" by simp
    moreover from ms have "list_all is_meta (Meta md # ms)" by simp
    ultimately show ?thesis by blast
  qed
qed

lemma process_loop_keeps_headed:
  assumes run: "process_loop process (history_path cfg date rnk) FILES s = (r, s')"
    and inv: "logs_headed cfg date n (logs s)"
    and rnk: "rnk < n"
  shows "logs_headed cfg date n (logs s')"
proof -
  let ?mf = "history_path cfg date rnk"
  from process_loop_own_log [OF run] obtain ms where ms: "list_all is_meta ms"
    and own: "unpickler (logs s') ?mf = unpickler (logs s) ?mf @ ms" by blast
  have other: "map_of (logs s') p = map_of (logs s) p" if "p \<noteq> ?mf" for p
    using run that by (rule process_loop_frame)
  from process_loop_extends [OF run] have ext: "log_extends (logs s) (logs s')" .
  have exists: "map_of (logs s') p \<noteq> None" if "map_of (logs s) p \<noteq> None" for p
    using ext that unfolding log_extends_def by fastforce
  have mf_glob: "glob_match cfg date ?mf" by (simp add: glob_match_history_path)
  from inv rnk have "map_of (logs s) ?mf \<noteq> None" by (simp add: logs_headed_def)
  with mf_glob have "?mf \<in> set (glob_history cfg date (logs s))" by (simp add: set_glob_history)
  with inv have h: "headed (unpickler (logs s) ?mf)" by (simp add: logs_headed_def)
  show ?thesis
    unfolding logs_headed_def
  proof (intro conjI ballI allI impI)
    fix p
    assume p: "p \<in> set (glob_history cfg date (logs s'))"
    show "headed (unpickler (logs s') p)"
    proof (cases "p = ?mf")
      case True
      with own h ms show ?thesis by (simp add: headed_append_metas)
    next
      case False
      from other [OF False] have same: "unpickler (logs s') p = unpickler (logs s) p"
        by (simp add: unpickler_def)
      from p other [OF False] have "p \<in> set (glob_history cfg date (logs s))"
        by (simp add: set_glob_history)
      with inv same show ?thesis by (simp add: logs_headed_def)
    qed
  next
    fix k
    assume "k < n"
    with inv have "map_of (logs s) (history_path cfg date k) \<noteq> None" by (simp add: logs_headed_def)
    then show "map_of (logs s') (history_path cfg date k) \<noteq> None" by (rule exists)
  qed
qed

lemma reconcile_first_run:
  assumes empty: "glob_history cfg date (logs s) = []"
  shows "\<exists>s1. reconcile cfg date s = (None, s1, []) \<and>
              (\<forall>rnk < NRANKS cfg. map_of (logs s1) (history_path cfg date rnk) = Some [Cfg cfg]) \<and>
              (\<forall>p. map_of (logs s1) p = map_of (logs s) p \<or> map_of (logs s1) p = Some [Cfg cfg])"
proof -
  let ?ps = "map (history_path cfg date) [0 ..< NRANKS cfg]"
  from empty have list: "metas_file_list cfg date s = ?ps"
    by (simp add: metas_file_list_def)
  have absent: "map_of (logs s) (history_path cfg date rnk) = None" for rnk
    using empty by (rule glob_empty_absent) (simp add: glob_match_history_path)
  then have none: "unpickler (logs s) (history_path cfg date rnk) = []" for rnk
    by (simp add: unpickler_def)
  have "\<forall>p \<in> set ?ps. unpickler (logs s) p = [] \<or> unpickler (logs s) p = [Cfg cfg]"
    using none by auto
  from reconcile_loop_bootstrap [OF this, of "[]"] obtain s1 where
    run: "reconcile_loop cfg ?ps s [] = (None, s1, [])" by blast
  have init: "map_of (logs s1) (history_path cfg date rnk) = Some [Cfg cfg]" if "rnk < NRANKS cfg" for rnk
    using run
  proof (rule reconcile_loop_inits)
    show "history_path cfg date rnk \<in> set ?ps" using that by simp
    show "unpickler (logs s) (history_path cfg date rnk) = []" by (rule none)
  qed
  have frame: "map_of (logs s1) p = map_of (logs s) p \<or> map_of (logs s1) p = Some [Cfg cfg]" for p
    using reconcile_loop_frame [OF run, of p] by blast
  from run list init frame show ?thesis by (auto simp: reconcile_def)
qed

lemma reconcile_headed:
  assumes inv: "logs_headed cfg date n (logs s)" and ne: "glob_history cfg date (logs s) \<noteq> []"
  shows "reconcile cfg date s
           = (None, s, concat (map (\<lambda>p. logged_names (unpickler (logs s) p))
                                 (glob_history cfg date (logs s))))"
proof -
  from ne have list: "metas_file_list cfg date s = glob_history cfg date (logs s)"
    by (simp add: metas_file_list_def)
  from inv have "\<forall>p \<in> set (glob_history cfg date (logs s)). headed (unpickler (logs s) p)"
    by (simp add: logs_headed_def)
  from reconcile_loop_headed [OF this, of cfg "[]"] list show ?thesis
    by (simp add: reconcile_def)
qed

lemma first_run_headed:
  assumes empty: "glob_history cfg date (logs s) = []"
    and rec: "reconcile cfg date s = (r, s1, proc_files)"
  shows "logs_headed cfg date (NRANKS cfg) (logs s1)"
proof -
  from reconcile_first_run [OF empty] rec
  have init: "\<forall>rnk < NRANKS cfg. map_of (logs s1) (history_path cfg date rnk) = Some [Cfg cfg]"
    and frame: "\<forall>p. map_of (logs s1) p = map_of (logs s) p \<or> map_of (logs s1) p = Some [Cfg cfg]"
    by auto
  show ?thesis
    unfolding logs_headed_def
  proof (intro conjI ballI allI impI)
    fix p
    assume "p \<in> set (glob_history cfg date (logs s1))"
    then have gm: "glob_match cfg date p" and ex: "map_of (logs s1) p \<noteq> None"
      by (simp_all add: set_glob_history)
    from glob_empty_absent [OF empty gm] have "map_of (logs s) p = None" .
    with frame ex have "map_of (logs s1) p = Some [Cfg cfg]" by metis
    then show "headed (unpickler (logs s1) p)" by (simp add: unpickler_def)
  next
    fix rnk
    assume "rnk < NRANKS cfg"
    with init show "map_of (logs s1) (history_path cfg date rnk) \<noteq> None" by simp
  qed
qed

lemma worker_call_keeps_headed:
  assumes call: "worker_call cfg scandir process t_start t_end date s = (r, s')"
    and rnk: "RANK cfg < NRANKS cfg"
    and inv: "glob_history cfg date (logs s) = [] \<or> logs_headed cfg date (NRANKS cfg) (logs s)"
  shows "glob_history cfg date (logs s') = [] \<or> logs_headed cfg date (NRANKS cfg) (logs s')"
  using call
proof (cases rule: worker_call_cases)
  case none
  with inv show ?thesis by simp
next
  case (reconcile_error EXT e proc_files)
  let ?s0 = "s\<lparr>trace := trace s @ [Log_Start date]\<rparr>"
  show ?thesis
  proof (cases "glob_history cfg date (logs s) = []")
    case True
    then have "glob_history cfg date (logs ?s0) = []" by simp
    from first_run_headed [OF this reconcile_error(2)] show ?thesis by simp
  next
    case False
    with inv have "logs_headed cfg date (NRANKS cfg) (logs ?s0)" "glob_history cfg date (logs ?s0) \<noteq> []"
      by simp_all
    from reconcile_headed [OF this] reconcile_error(2) show ?thesis by simp
  qed
next
  case (no_ranks EXT proc_files)
  with rnk show ?thesis by simp
next
  case (processed EXT s1 proc_files s2)
  let ?s0 = "s\<lparr>trace := trace s @ [Log_Start date]\<rparr>"
  have h1: "logs_headed cfg date (NRANKS cfg) (logs s1)"
  proof (cases "glob_history cfg date (logs s) = []")
    case True
    then have "glob_history cfg date (logs ?s0) = []" by simp
    from first_run_headed [OF this processed(2)] show ?thesis .
  next
    case False
    with inv have a: "logs_headed cfg date (NRANKS cfg) (logs ?s0)" "glob_history cfg date (logs ?s0) \<noteq> []"
      by simp_all
    from reconcile_headed [OF a] processed(2) have "s1 = ?s0" by simp
    with a(1) show ?thesis by simp
  qed
  from process_loop_keeps_headed [OF processed(4) h1 rnk]
  have "logs_headed cfg date (NRANKS cfg) (logs s2)" .
  moreover from processed(5) have "logs s' = logs s2" by auto
  ultimately show ?thesis by simp
qed

lemma run_calls_keeps_headed:
  assumes "\<forall>c \<in> set calls. logs_path (fst c) = logs_path cfg \<and> NRANKS (fst c) = n \<and> RANK (fst c) < n"
    and "glob_history cfg date (logs s) = [] \<or> logs_headed cfg date n (logs s)"
  shows "glob_history cfg date (logs (run_calls calls date s)) = [] \<or>
         logs_headed cfg date n (logs (run_calls calls date s))"
  using assms
proof (induction calls arbitrary: s)
  case Nil
  then show ?case by simp
next
  case (Cons c calls)
  obtain cfg' scandir process t_start t_end where c: "c = (cfg', scandir, process, t_start, t_end)"
    by (cases c) auto
  from Cons.prems(1) c have lp: "logs_path cfg' = logs_path cfg" and nr: "NRANKS cfg' = n"
    and rk: "RANK cfg' < NRANKS cfg'" by simp_all
  let ?w = "worker_call cfg' scandir process t_start t_end date s"
  have w: "?w = (fst ?w, snd ?w)" by simp
  from Cons.prems(2) have "glob_history cfg' date (logs s) = [] \<or> logs_headed cfg' date (NRANKS cfg') (logs s)"
    by (simp only: glob_history_cong [OF lp] logs_headed_cong [OF lp] nr)
  from worker_call_keeps_headed [OF w rk this]
  have "glob_history cfg date (logs (snd ?w)) = [] \<or> logs_headed cfg date n (logs (snd ?w))"
    by (simp only: glob_history_cong [OF lp] logs_headed_cong [OF lp] nr)
  moreover from Cons.prems(1) have "\<forall>c \<in> set calls. logs_path (fst c) = logs_path cfg \<and> NRANKS (fst c) = n \<and> RANK (fst c) < n"
    by simp
  ultimately have "glob_history cfg date (logs (run_calls calls date (snd ?w))) = [] \<or>
         logs_headed cfg date n (logs (run_calls calls date (snd ?w)))"
    by (rule Cons.IH [rotated])
  then show ?case by (simp add: c)
qed

text \<open>
  What reconciliation does find. Start from a state without any log for the date and let
  ranks of one run with \<open>n\<close> ranks call the worker, in any order, any number of times,
  each call ending normally or with an exception. Every log is then headed, and a
  reconciliation with any number of ranks succeeds; the completed names are exactly the
  names of the metadata objects of all the logs that the glob finds, and the log named
  for any rank index whatsoever is among them.
\<close>

lemma uniform_history_reconciles:
  assumes start: "glob_history cfg date (logs s0) = []"
    and calls: "\<forall>c \<in> set calls. logs_path (fst c) = logs_path cfg \<and> NRANKS (fst c) = n \<and> RANK (fst c) < n"
  shows "\<exists>s2 proc_files.
           reconcile cfg date (run_calls calls date s0) = (None, s2, proc_files) \<and>
           set proc_files
             = {fname md | p md. p \<in> set (glob_history cfg date (logs (run_calls calls date s0))) \<and>
                                Meta md \<in> set (unpickler (logs (run_calls calls date s0)) p)} \<and>
           (\<forall>rnk md. Meta md \<in> set (unpickler (logs (run_calls calls date s0))
                                        (history_path cfg date rnk))
                      \<longrightarrow> fname md \<in> set proc_files)"
proof -
  let ?s1 = "run_calls calls date s0"
  let ?names = "{fname md | p md. p \<in> set (glob_history cfg date (logs ?s1)) \<and>
                                Meta md \<in> set (unpickler (logs ?s1) p)}"
  have inv: "glob_history cfg date (logs ?s1) = [] \<or> logs_headed cfg date n (logs ?s1)"
    using calls start by (intro run_calls_keeps_headed) simp_all
  have "\<exists>s2 proc_files. reconcile cfg date ?s1 = (None, s2, proc_files) \<and> set proc_files = ?names"
  proof (cases "glob_history cfg date (logs ?s1) = []")
    case True
    from reconcile_first_run [OF True] obtain s2 where "reconcile cfg date ?s1 = (None, s2, [])"
      by blast
    moreover from True have "?names = {}" by simp
    ultimately show ?thesis by simp
  next
    case False
    with inv have h: "logs_headed cfg date n (logs ?s1)" by simp
    let ?out = "concat (map (\<lambda>p. logged_names (unpickler (logs ?s1) p))
                          (glob_history cfg date (logs ?s1)))"
    from reconcile_headed [OF h False] have rec: "reconcile cfg date ?s1 = (None, ?s1, ?out)" .
    have "set ?out = ?names" by (auto simp: set_logged_names)
    with rec show ?thesis by blast
  qed
  then obtain s2 proc_files where rec: "reconcile cfg date ?s1 = (None, s2, proc_files)"
    and names: "set proc_files = ?names" by blast
  have ranks: "fname md \<in> set proc_files"
    if "Meta md \<in> set (unpickler (logs ?s1) (history_path cfg date rnk))" for rnk md
  proof -
    from that have "map_of (logs ?s1) (history_path cfg date rnk) \<noteq> None"
      by (cases "map_of (logs ?s1) (history_path cfg date rnk)") (simp_all add: unpickler_def)
    then have "history_path cfg date rnk \<in> set (glob_history cfg date (logs ?s1))"
      by (simp add: set_glob_history glob_match_history_path)
    with that names show ?thesis by blast
  qed
  from rec names ranks show ?thesis by blast
qed

text \<open>
  Claim C2 (peer-count change). The glob finds the log of every rank index, but the claim
  that every item named in a log is removed before partitioning fails as soon as the
  number of ranks has grown once. A run with one rank stops at \<open>b.fil\<close> and leaves the
  record of \<open>a.fil\<close>. The run is resumed with three ranks, whose processes reach the
  worker one after the other. Rank 1 finds the log of rank 0, so the expected logs are not
  synthesized and its own log never receives the configuration; it processes \<open>d.fil\<close> and
  \<open>e.fil\<close> and its log is created holding their two records only. When rank 2 then
  reconciles, the glob finds that log, \<open>next(_metalist_)\<close> drops the record of \<open>d.fil\<close> as
  if it were the configuration, and \<open>d.fil\<close> stays in the list of files: it falls into the
  slice of rank 2 and is processed a second time. A later run with two ranks misses the
  record of \<open>d.fil\<close> in the same way.
\<close>

theorem resumed_run_misses_record:
  "fst (worker_call (cfg_ex 0 1) dir_ex process_fail_b 0 5 ''d'' s_empty)
     = Some (ProcessError ''b.fil'') \<and>
   unpickler (logs s_one_rank) ''logs/d.history_0.log''
     = [Cfg (cfg_ex 0 1), Meta \<lparr>fname = ''a.fil'', payload = ''ok''\<rparr>] \<and>
   fst (worker_call (cfg_ex 1 3) dir_ex process_ok 0 5 ''d'' s_one_rank) = None \<and>
   history_path (cfg_ex 1 3) ''d'' 1 = ''logs/d.history_1.log'' \<and>
   unpickler (logs s_resumed) ''logs/d.history_1.log''
     = [Meta \<lparr>fname = ''d.fil'', payload = ''ok''\<rparr>,
        Meta \<lparr>fname = ''e.fil'', payload = ''ok''\<rparr>] \<and>
   ''logs/d.history_1.log'' \<in> set (glob_history (cfg_ex 2 3) ''d'' (logs s_resumed)) \<and>
   fst (reconcile (cfg_ex 2 3) ''d'' s_resumed) = None \<and>
   ''d.fil'' \<notin> set (snd (snd (reconcile (cfg_ex 2 3) ''d'' s_resumed))) \<and>
   ''d.fil'' \<in> set (map name (remaining (filter_by_ext dir_ex ''store/d'' ''.fil'')
                                 (snd (snd (reconcile (cfg_ex 2 3) ''d'' s_resumed))))) \<and>
   map name (rank_slice (remaining (filter_by_ext dir_ex ''store/d'' ''.fil'')
                           (snd (snd (reconcile (cfg_ex 2 3) ''d'' s_resumed)))) 2 3)
     = [''d.fil''] \<and>
   filelist (snd (worker_call (cfg_ex 2 3) dir_ex process_ok 0 5 ''d'' s_resumed))
     = [''a.fil'', ''d.fil'', ''e.fil'', ''d.fil''] \<and>
   fst (reconcile (cfg_ex 0 2) ''d'' s_resumed) = None \<and>
   ''d.fil'' \<notin> set (snd (snd (reconcile (cfg_ex 0 2) ''d'' s_resumed)))"
  by code_simp

end
